theory Spec2Isabelle
  imports Main
begin

section \<open>Node locker (node-lock module)\<close>

text \<open>
  The node locker keeps one global queue \<open>_locks\<close> of lock objects. A lock object is
  identified by its \<open>id\<close> (a global counter \<open>lastid\<close>), which stands for the object
  reference of the source: mutating a lock object is an update of the queue entry with that id.
  \<open>Date.now()\<close> is passed in as the argument \<open>now\<close>.
\<close>

datatype lock_state = PENDING | LOCKED | EXPIRED | DONE

record node_lock =
  lock_id :: nat
  path :: string
  tid :: nat
  forWriting :: bool
  priority :: bool
  state :: lock_state
  requested :: nat
  granted :: "nat option"
  expires :: "nat option"
  waitingFor :: "nat option"

record node_locker =
  locks :: "node_lock list"
  lastTid :: nat
  lastid :: nat

datatype lock_error = LockExpired | LockNotFound

definition LOCK_TIMEOUT :: nat where
  "LOCK_TIMEOUT = 90 * 1000"

definition new_locker :: node_locker where
  "new_locker = \<lparr>locks = [], lastTid = 0, lastid = 0\<rparr>"

definition createTid :: "node_locker \<Rightarrow> nat \<times> node_locker" where
  "createTid L = (lastTid L + 1, L\<lparr>lastTid := lastTid L + 1\<rparr>)"

text \<open>\<open>_allowLock\<close>: the first lock of another transaction that is granted and that is a
  write lock, or any granted lock of another transaction when the request is for writing.\<close>

definition conflicts :: "nat \<Rightarrow> bool \<Rightarrow> node_lock \<Rightarrow> bool" where
  "conflicts t w otherLock \<longleftrightarrow>
     tid otherLock \<noteq> t \<and> state otherLock = LOCKED \<and> (w \<or> forWriting otherLock)"

definition allowLock :: "node_lock list \<Rightarrow> string \<Rightarrow> nat \<Rightarrow> bool \<Rightarrow> bool \<times> node_lock option" where
  "allowLock ls p t w =
     (case find (conflicts t w) ls of
        None \<Rightarrow> (True, None)
      | Some c \<Rightarrow> (False, Some c))"

definition isAllowed :: "node_lock list \<Rightarrow> string \<Rightarrow> nat \<Rightarrow> bool \<Rightarrow> bool" where
  "isAllowed ls p t w = fst (allowLock ls p t w)"

text \<open>In-place updates of the lock object with a given id.\<close>

definition set_waitingFor :: "nat \<Rightarrow> node_lock option \<Rightarrow> node_lock list \<Rightarrow> node_lock list" where
  "set_waitingFor i c ls =
     map (\<lambda>l. if lock_id l = i then l\<lparr>waitingFor := map_option lock_id c\<rparr> else l) ls"

text \<open>The \<open>proceed\<close> branch of \<open>lock\<close>: the state becomes \<open>locked\<close>; the grant time and
  the expiry are set the first time only.\<close>

definition grant_lock :: "bool \<Rightarrow> nat \<Rightarrow> node_lock \<Rightarrow> node_lock" where
  "grant_lock noTimeout now l =
     (case granted l of
        Some g \<Rightarrow> l\<lparr>state := LOCKED\<rparr>
      | None \<Rightarrow> l\<lparr>state := LOCKED, granted := Some now,
                 expires := (if noTimeout then expires l else Some (now + LOCK_TIMEOUT))\<rparr>)"

definition grant :: "nat \<Rightarrow> nat \<Rightarrow> node_lock list \<Rightarrow> node_lock list" where
  "grant i now ls = map (\<lambda>l. if lock_id l = i then grant_lock False now l else l) ls"

text \<open>The comparator handed to \<open>Array.prototype.sort\<close> in \<open>_processLockQueue\<close>. Its last
  branch returns the boolean \<open>a.requested < b.requested\<close>, which \<open>sort\<close> reads as the
  number 1 or 0.\<close>

definition lock_compare :: "node_lock \<Rightarrow> node_lock \<Rightarrow> int" where
  "lock_compare a b =
     (if priority a \<and> \<not> priority b then - 1
      else if \<not> priority a \<and> priority b then 1
      else if requested a < requested b then 1 else 0)"

text \<open>\<open>Array.prototype.sort\<close> belongs to the host engine. The locker takes it as the
  parameter \<open>srt\<close>. \<open>insertion_sort\<close> is the insertion sort engines use for short arrays:
  an element of the sorted prefix is shifted to the right as long as the comparator, called
  with that element first and the new element second, returns a positive number.\<close>

fun insert_by :: "('a \<Rightarrow> 'a \<Rightarrow> int) \<Rightarrow> 'a \<Rightarrow> 'a list \<Rightarrow> 'a list" where
  "insert_by cmp x [] = [x]"
| "insert_by cmp x (t # ts) = (if cmp t x > 0 then t # insert_by cmp x ts else x # t # ts)"

definition insertion_sort :: "('a \<Rightarrow> 'a \<Rightarrow> int) \<Rightarrow> 'a list \<Rightarrow> 'a list" where
  "insertion_sort cmp xs = rev (foldl (\<lambda>acc x. insert_by cmp x acc) [] xs)"

type_synonym lock_sort = "(node_lock \<Rightarrow> node_lock \<Rightarrow> int) \<Rightarrow> node_lock list \<Rightarrow> node_lock list"

text \<open>\<open>_processLockQueue\<close>: the pending locks, sorted, are visited one after the other;
  each visit reads the lock object (the queue entry with its id), checks it against the queue
  as it is then, and grants it when allowed.\<close>

definition process_one :: "nat \<Rightarrow> node_lock list \<Rightarrow> nat \<Rightarrow> node_lock list" where
  "process_one now ls i =
     (case find (\<lambda>l. lock_id l = i) ls of
        None \<Rightarrow> ls
      | Some l \<Rightarrow>
          let check = allowLock ls (path l) (tid l) (forWriting l);
              ls1 = set_waitingFor i (snd check) ls
          in if fst check then grant i now ls1 else ls1)"

definition pending_sorted :: "lock_sort \<Rightarrow> node_lock list \<Rightarrow> nat list" where
  "pending_sorted srt ls = map lock_id (srt lock_compare (filter (\<lambda>l. state l = PENDING) ls))"

definition processLockQueue :: "lock_sort \<Rightarrow> nat \<Rightarrow> node_locker \<Rightarrow> node_locker" where
  "processLockQueue srt now L =
     L\<lparr>locks := foldl (process_one now) (locks L) (pending_sorted srt (locks L))\<rparr>"

text \<open>\<open>lock(path, tid, forWriting, comment, options)\<close> for a new request. The result is
  the error of the rejected promise, or the id of the new lock object; the promise of the
  source is resolved at once iff that lock is \<open>locked\<close> in the returned queue.\<close>

definition mk_lock :: "nat \<Rightarrow> string \<Rightarrow> nat \<Rightarrow> bool \<Rightarrow> bool \<Rightarrow> nat \<Rightarrow> node_lock" where
  "mk_lock i p t w prio now =
     \<lparr>lock_id = i, path = p, tid = t, forWriting = w, priority = prio, state = PENDING,
      requested = now, granted = None, expires = None, waitingFor = None\<rparr>"

definition lock :: "node_locker \<Rightarrow> string \<Rightarrow> nat \<Rightarrow> bool \<Rightarrow> bool \<Rightarrow> bool \<Rightarrow> nat
    \<Rightarrow> (lock_error + nat) \<times> node_locker" where
  "lock L p t w withPriority noTimeout now =
     (if \<exists>l \<in> set (locks L). tid l = t \<and> state l = EXPIRED then (Inl LockExpired, L)
      else
        let i = lastid L + 1;
            l = mk_lock i p t w withPriority now;
            ls = locks L @ [l];
            check = allowLock ls p t w;
            l1 = l\<lparr>waitingFor := map_option lock_id (snd check)\<rparr>;
            l2 = (if fst check then grant_lock noTimeout now l1 else l1)
        in (Inr i, L\<lparr>locks := locks L @ [l2], lastid := i\<rparr>))"

text \<open>\<open>unlock(lockOrId, comment, processQueue)\<close>.\<close>

definition unlock :: "lock_sort \<Rightarrow> node_locker \<Rightarrow> nat \<Rightarrow> bool \<Rightarrow> nat
    \<Rightarrow> (lock_error + nat) \<times> node_locker" where
  "unlock srt L i processQueue now =
     (if \<not> (\<exists>l \<in> set (locks L). lock_id l = i) then (Inl LockNotFound, L)
      else
        let L1 = L\<lparr>locks := filter (\<lambda>l. lock_id l \<noteq> i) (locks L)\<rparr>
        in (Inr i, if processQueue then processLockQueue srt now L1 else L1))"

text \<open>The last firing of \<open>timeoutHandler\<close>: a lock that is still \<open>locked\<close> expires and the
  queue is processed.\<close>

definition expire :: "lock_sort \<Rightarrow> node_locker \<Rightarrow> nat \<Rightarrow> nat \<Rightarrow> node_locker" where
  "expire srt L i now =
     (if \<exists>l \<in> set (locks L). lock_id l = i \<and> state l = LOCKED
      then processLockQueue srt now
             (L\<lparr>locks := map (\<lambda>l. if lock_id l = i then l\<lparr>state := EXPIRED\<rparr> else l) (locks L)\<rparr>)
      else L)"

text \<open>\<open>NodeLock.moveTo(otherPath, forWriting)\<close> on the lock object \<open>lk\<close>;
  \<open>moveToParent()\<close> is the same with the parent path and the lock's own mode.\<close>

definition moveTo :: "lock_sort \<Rightarrow> node_locker \<Rightarrow> node_lock \<Rightarrow> string \<Rightarrow> bool \<Rightarrow> nat
    \<Rightarrow> (lock_error + nat) \<times> node_locker" where
  "moveTo srt L lk otherPath w now =
     (if isAllowed (locks L) otherPath (tid lk) w
      then (Inr (lock_id lk),
            L\<lparr>locks := map (\<lambda>l. if lock_id l = lock_id lk
                                 then l\<lparr>waitingFor := None, path := otherPath, forWriting := w\<rparr>
                                 else l) (locks L)\<rparr>)
      else lock (snd (unlock srt L (lock_id lk) False now)) otherPath (tid lk) w True False now)"

definition moveToParent :: "lock_sort \<Rightarrow> node_locker \<Rightarrow> node_lock \<Rightarrow> string \<Rightarrow> nat
    \<Rightarrow> (lock_error + nat) \<times> node_locker" where
  "moveToParent srt L lk parentPath now = moveTo srt L lk parentPath (forWriting lk) now"

text \<open>The states of the locker that a sequence of operations can reach.\<close>

inductive reachable :: "lock_sort \<Rightarrow> node_locker \<Rightarrow> bool" for srt :: lock_sort where
  r_new: "reachable srt new_locker"
| r_tid: "reachable srt L \<Longrightarrow> reachable srt (snd (createTid L))"
| r_lock: "reachable srt L \<Longrightarrow> reachable srt (snd (lock L p t w prio nt now))"
| r_unlock: "reachable srt L \<Longrightarrow> reachable srt (snd (unlock srt L i pq now))"
| r_expire: "reachable srt L \<Longrightarrow> reachable srt (expire srt L i now)"
| r_moveTo: "reachable srt L \<Longrightarrow> lk \<in> set (locks L) \<Longrightarrow>
             reachable srt (snd (moveTo srt L lk p w now))"

definition granted_locks :: "node_locker \<Rightarrow> node_lock list" where
  "granted_locks L = filter (\<lambda>l. state l = LOCKED) (locks L)"

text \<open>A granted write lock excludes every granted lock of another transaction.\<close>

definition exclusive :: "node_lock list \<Rightarrow> bool" where
  "exclusive ls \<longleftrightarrow>
     (\<forall>a \<in> set ls. \<forall>b \<in> set ls.
        state a = LOCKED \<and> state b = LOCKED \<and> tid a \<noteq> tid b \<longrightarrow> \<not> forWriting a \<and> \<not> forWriting b)"

definition ids_ok :: "node_locker \<Rightarrow> bool" where
  "ids_ok L \<longleftrightarrow> distinct (map lock_id (locks L)) \<and> (\<forall>l \<in> set (locks L). lock_id l \<le> lastid L)"

definition linv :: "node_lock list \<Rightarrow> bool" where
  "linv ls \<longleftrightarrow> exclusive ls \<and> distinct (map lock_id ls)"

definition locker_inv :: "node_locker \<Rightarrow> bool" where
  "locker_inv L \<longleftrightarrow> exclusive (locks L) \<and> ids_ok L"

text \<open>The promise returned by \<open>lock\<close> for the lock object \<open>i\<close> is resolved iff that object is
  \<open>locked\<close>; a transaction holds a write lock when one of its write locks is \<open>locked\<close>.\<close>

definition is_granted :: "node_locker \<Rightarrow> nat \<Rightarrow> bool" where
  "is_granted L i \<longleftrightarrow> (\<exists>l \<in> set (locks L). lock_id l = i \<and> state l = LOCKED)"

definition holds_write :: "node_locker \<Rightarrow> nat \<Rightarrow> bool" where
  "holds_write L t \<longleftrightarrow> (\<exists>l \<in> set (locks L). tid l = t \<and> state l = LOCKED \<and> forWriting l)"

definition has_expired :: "node_locker \<Rightarrow> nat \<Rightarrow> bool" where
  "has_expired L t \<longleftrightarrow> (\<exists>l \<in> set (locks L). tid l = t \<and> state l = EXPIRED)"

definition other_writer :: "node_locker \<Rightarrow> nat \<Rightarrow> bool" where
  "other_writer L t \<longleftrightarrow> (\<exists>l \<in> set (locks L). tid l \<noteq> t \<and> state l = LOCKED \<and> forWriting l)"

text \<open>Concrete runs of the locker. In \<open>run_two_readers\<close> transactions 1 and 2 hold a read
  lock each. In \<open>run_expired\<close> transaction 1 takes a write lock at time 0 and a second
  one at time 5, and the first one expires while the second is still held. In \<open>run_queue\<close> transaction 1 holds a write lock
  while the write requests of transactions 2 (at time 1) and 3 (at time 2) wait.\<close>

definition run_two_readers :: node_locker where
  "run_two_readers =
     snd (lock (snd (lock new_locker ''users'' 1 False False False 0)) ''posts'' 2 False False False 1)"

definition run_expired :: node_locker where
  "run_expired =
     expire insertion_sort
       (snd (lock (snd (lock new_locker ''a'' 1 True False False 0)) ''b'' 1 True False False 5))
       1 120000"

definition run_queue :: node_locker where
  "run_queue =
     snd (lock (snd (lock (snd (lock new_locker ''a'' 1 True False False 0))
                      ''b'' 2 True False False 1))
            ''c'' 3 True False False 2)"


section \<open>Values and inline placement (storage module)\<close>

text \<open>
  The values the engine stores. A JavaScript number is modelled by an integer (floating
  point is outside the model), a \<open>Date\<close> by its epoch milliseconds, an \<open>ArrayBuffer\<close>
  by its bytes, an object by its own enumerable properties in key order. A string is a list of
  characters with code points below 256: its \<open>length\<close> is the number of characters, and a
  character from 128 on takes two bytes in UTF-8.
\<close>

datatype jsval =
    JUndefined
  | JNull
  | JNumber int
  | JBoolean bool
  | JString string
  | JDate int
  | JPathReference string
  | JArrayBuffer "nat list"
  | JArray "jsval list"
  | JObject "(string \<times> jsval) list"

datatype js_error = TypeError | ReferenceError | Error string | NodeRevisionError

text \<open>\<open>encodeString(str).length\<close>: the number of bytes of the UTF-8 encoding.\<close>

definition utf8_length :: "string \<Rightarrow> nat" where
  "utf8_length s = sum_list (map (\<lambda>c. if (of_char c :: nat) < 128 then 1 else 2) s)"

text \<open>An \<open>ArrayBuffer\<close> has the property \<open>byteLength\<close> and no property \<open>length\<close>:
  \<open>value.length\<close> is \<open>undefined\<close>, and \<open>undefined < n\<close> is false for every number.\<close>

definition arraybuffer_length :: "nat list \<Rightarrow> int option" where
  "arraybuffer_length bytes = None"

definition js_less :: "int option \<Rightarrow> int \<Rightarrow> bool" where
  "js_less a b = (case a of None \<Rightarrow> False | Some x \<Rightarrow> x < b)"

text \<open>\<open>StorageSettings.maxInlineValueSize\<close> defaults to 50.\<close>

definition default_maxInlineValueSize :: int where
  "default_maxInlineValueSize = 50"

text \<open>\<open>Storage.valueFitsInline(value)\<close>. For \<open>null\<close> the branch \<open>typeof value === "object"\<close>
  calls \<open>Object.keys(null)\<close>, which throws a TypeError; \<open>undefined\<close> reaches the last branch.\<close>

fun valueFitsInline :: "int \<Rightarrow> jsval \<Rightarrow> js_error + bool" where
  "valueFitsInline maxInlineValueSize (JNumber n) = Inr True"
| "valueFitsInline maxInlineValueSize (JBoolean b) = Inr True"
| "valueFitsInline maxInlineValueSize (JDate d) = Inr True"
| "valueFitsInline maxInlineValueSize (JString s) =
     (if int (length s) > maxInlineValueSize then Inr False
      else Inr (int (utf8_length s) < maxInlineValueSize))"
| "valueFitsInline maxInlineValueSize (JPathReference p) =
     (if int (length p) > maxInlineValueSize then Inr False
      else Inr (int (utf8_length p) < maxInlineValueSize))"
| "valueFitsInline maxInlineValueSize (JArrayBuffer bytes) =
     Inr (js_less (arraybuffer_length bytes) maxInlineValueSize)"
| "valueFitsInline maxInlineValueSize (JArray xs) = Inr (length xs = 0)"
| "valueFitsInline maxInlineValueSize (JObject kvs) = Inr (length kvs = 0)"
| "valueFitsInline maxInlineValueSize JNull = Inl TypeError"
| "valueFitsInline maxInlineValueSize JUndefined = Inl TypeError"

text \<open>The serialized size the specification speaks of, for the values that have one.\<close>

fun serialized_size :: "jsval \<Rightarrow> nat" where
  "serialized_size (JString s) = utf8_length s"
| "serialized_size (JPathReference p) = utf8_length p"
| "serialized_size (JArrayBuffer bytes) = length bytes"
| "serialized_size v = 0"

fun nonempty_composite :: "jsval \<Rightarrow> bool" where
  "nonempty_composite (JArray xs) = (xs \<noteq> [])"
| "nonempty_composite (JObject kvs) = (kvs \<noteq> [])"
| "nonempty_composite v = False"

section \<open>Transactions on a node (storage module)\<close>













section \<open>Query planning and index result merging (api-local module)\<close>

text \<open>
  \<open>LocalApi.query\<close> assigns indexes to the filters of the query, rejects the query when the
  filters left without an index cannot be run, and merges the result sets of the indexed
  filters. A filter object is identified by its position in \<open>query.filters\<close>. The static
  list \<open>DataIndex.validOperators\<close> and \<open>Array.prototype.sort\<close> are parameters.
\<close>

record data_index =
  ix_path :: string
  ix_key :: string
  ix_type :: string
  ix_includeKeys :: "string list"
  ix_validOperators :: "string list"

record query_filter =
  f_key :: string
  f_op :: string
  f_compare :: jsval
  f_index :: "data_index option"
  f_indexUsage :: "string option"

record query_order =
  o_key :: string
  o_ascending :: bool
  o_index :: "data_index option"

record scored_index =
  s_index :: data_index
  s_points :: nat
  s_filterKeys :: "string list"
  s_sortKeys :: "string list"

datatype query_error =
    SpecialIndexRequired string
  | UnknownOperator string
  | WildcardIndexRequired "string list"
  | BestIndexUndefined

text \<open>\<open>const isWildcardPath = path.includes('*')\<close>.\<close>

definition isWildcardPath :: "string \<Rightarrow> bool" where
  "isWildcardPath p \<longleftrightarrow> CHR ''*'' \<in> set p"

text \<open>The getter \<open>DataReference.isWildcardPath\<close> of the public reference:
  \<open>this.path.indexOf('*') >= 0 || this.path.indexOf('$') >= 0\<close>.\<close>

definition ref_isWildcardPath :: "string \<Rightarrow> bool" where
  "ref_isWildcardPath p \<longleftrightarrow> CHR ''*'' \<in> set p \<or> CHR ''$'' \<in> set p"

definition score_index :: "string list \<Rightarrow> string list \<Rightarrow> int \<Rightarrow> data_index \<Rightarrow> scored_index" where
  "score_index otherFilterKeys sortKeys qtake ix =
     (let availableKeys = ix_includeKeys ix @ [ix_key ix];
          forOtherFilters = filter (\<lambda>k. k \<in> set otherFilterKeys) availableKeys;
          forSorting = filter (\<lambda>k. k \<in> set sortKeys) availableKeys;
          forBoth = forOtherFilters @ filter (\<lambda>k. k \<notin> set forOtherFilters) forSorting
      in \<lparr>s_index = ix,
          s_points = length forOtherFilters
                     + length forSorting * (if qtake \<noteq> 0 then length forSorting else 1)
                     + length forBoth * length forBoth,
          s_filterKeys = forOtherFilters, s_sortKeys = forSorting\<rparr>)"

text \<open>\<open>beneficialIndexes.sort((a,b) => a.points > b.points ? -1 : 1)\<close>.\<close>

definition points_compare :: "scored_index \<Rightarrow> scored_index \<Rightarrow> int" where
  "points_compare a b = (if s_points a > s_points b then - 1 else 1)"

type_synonym score_sort =
  "(scored_index \<Rightarrow> scored_index \<Rightarrow> int) \<Rightarrow> scored_index list \<Rightarrow> scored_index list"

text \<open>The other filters on a key the chosen index includes run on the index results.\<close>

definition assign_others :: "string list \<Rightarrow> nat \<Rightarrow> scored_index \<Rightarrow> query_filter list \<Rightarrow> query_filter list" where
  "assign_others dataIndex_validOperators i best fs =
     foldl (\<lambda>fs k.
        map (\<lambda>(j, f). if j \<noteq> i \<and> f_key f = k \<and> f_op f \<in> set dataIndex_validOperators
                       then f\<lparr>f_indexUsage := Some ''filter'', f_index := Some (s_index best)\<rparr>
                       else f)
            (zip [0 ..< length fs] fs))
       fs (s_filterKeys best)"

definition assign_sorts :: "scored_index \<Rightarrow> query_order list \<Rightarrow> query_order list" where
  "assign_sorts best os =
     foldl (\<lambda>os k. map (\<lambda>s. if o_key s = k then s\<lparr>o_index := Some (s_index best)\<rparr> else s) os)
       os (s_sortKeys best)"

text \<open>One round of \<open>query.filters.forEach(filter => ...)\<close>, for the filter at position
  \<open>i\<close>.\<close>

definition assign_filter :: "score_sort \<Rightarrow> string list \<Rightarrow> data_index list \<Rightarrow> int \<Rightarrow> nat
    \<Rightarrow> query_filter list \<times> query_order list \<Rightarrow> query_error + query_filter list \<times> query_order list" where
  "assign_filter srt dataIndex_validOperators availableIndexes qtake i st =
     (let fs = fst st; os = snd st; flt = fs ! i in
      if f_index flt \<noteq> None then Inr st
      else
        let indexesOnKey =
              filter (\<lambda>ix. f_op flt \<in> set (ix_validOperators ix))
                (filter (\<lambda>ix. ix_key ix = f_key flt) availableIndexes)
        in if length indexesOnKey \<ge> 1 then
             let otherFilterKeys = map f_key (take i fs @ drop (Suc i) fs);
                 sortKeys = filter (\<lambda>k. k \<noteq> f_key flt) (map o_key os);
                 beneficialIndexes = map (score_index otherFilterKeys sortKeys qtake) indexesOnKey
             in (case srt points_compare beneficialIndexes of
                   [] \<Rightarrow> Inl BestIndexUndefined
                 | best # rest \<Rightarrow>
                     Inr (assign_others dataIndex_validOperators i best
                            (fs[i := flt\<lparr>f_index := Some (s_index best)\<rparr>]),
                          assign_sorts best os))
           else Inr st)"

fun assign_filters :: "score_sort \<Rightarrow> string list \<Rightarrow> data_index list \<Rightarrow> int \<Rightarrow> nat list
    \<Rightarrow> query_filter list \<times> query_order list \<Rightarrow> query_error + query_filter list \<times> query_order list" where
  "assign_filters srt vo av qtake [] st = Inr st"
| "assign_filters srt vo av qtake (i # is) st =
     (case assign_filter srt vo av qtake i st of
        Inl e \<Rightarrow> Inl e
      | Inr st1 \<Rightarrow> assign_filters srt vo av qtake is st1)"

text \<open>\<open>specialOpsRegex = /^[a-z]+\:/i\<close>: letters, then a colon.\<close>

definition is_letter :: "char \<Rightarrow> bool" where
  "is_letter c \<longleftrightarrow> (let n = (of_char c :: nat) in (65 \<le> n \<and> n \<le> 90) \<or> (97 \<le> n \<and> n \<le> 122))"

definition specialOps :: "string \<Rightarrow> bool" where
  "specialOps opr \<longleftrightarrow>
     takeWhile is_letter opr \<noteq> [] \<and>
     (case dropWhile is_letter opr of [] \<Rightarrow> False | c # cs \<Rightarrow> c = CHR '':'')"

definition allowedTableScanOperators :: "string list" where
  "allowedTableScanOperators =
     [''<'', ''<='', ''=='', ''!='', ''>='', ''>'', ''like'', ''!like'', ''in'', ''!in'',
      ''matches'', ''!matches'', ''between'', ''!between'', ''has'', ''!has'', ''contains'',
      ''!contains'', ''exists'', ''!exists'']"

text \<open>The checks on the filters that have no index, in the order of the source. The result
  \<open>Inr\<close> holds the filters and sort orders with their indexes: the query goes on to the
  index scans and to the scan of the children of the path.\<close>

definition check_tableScanFilters :: "string \<Rightarrow> query_filter list \<Rightarrow> query_error + unit" where
  "check_tableScanFilters p fs =
     (let tableScanFilters = filter (\<lambda>f. f_index f = None) fs in
      case find (\<lambda>f. specialOps (f_op f)) tableScanFilters of
        Some f \<Rightarrow> Inl (SpecialIndexRequired (f_op f))
      | None \<Rightarrow>
          (case find (\<lambda>f. f_op f \<notin> set allowedTableScanOperators) tableScanFilters of
             Some f \<Rightarrow> Inl (UnknownOperator (f_op f))
           | None \<Rightarrow>
               if isWildcardPath p \<and> length tableScanFilters > 0
               then Inl (WildcardIndexRequired (remdups (map f_key tableScanFilters)))
               else Inr ()))"

definition assign_order_indexes :: "data_index list \<Rightarrow> int \<Rightarrow> query_order list \<Rightarrow> query_order list" where
  "assign_order_indexes availableIndexes qtake os =
     (if length os > 0 \<and> qtake \<noteq> 0
      then map (\<lambda>s. if o_index s \<noteq> None then s
                    else s\<lparr>o_index := find (\<lambda>ix. ix_type ix = ''normal'')
                                          (filter (\<lambda>ix. ix_key ix = o_key s) availableIndexes)\<rparr>) os
      else os)"

definition query_plan :: "score_sort \<Rightarrow> string list \<Rightarrow> data_index list \<Rightarrow> string
    \<Rightarrow> query_filter list \<Rightarrow> query_order list \<Rightarrow> int
    \<Rightarrow> query_error + query_filter list \<times> query_order list" where
  "query_plan srt dataIndex_validOperators availableIndexes p filters order qtake =
     (case assign_filters srt dataIndex_validOperators availableIndexes qtake
             [0 ..< length filters] (filters, order) of
        Inl e \<Rightarrow> Inl e
      | Inr (fs, os) \<Rightarrow>
          (case check_tableScanFilters p fs of
             Inl e \<Rightarrow> Inl e
           | Inr u \<Rightarrow> Inr (fs, assign_order_indexes availableIndexes qtake os)))"

definition mk_filter :: "string \<Rightarrow> string \<Rightarrow> jsval \<Rightarrow> query_filter" where
  "mk_filter k opr c = \<lparr>f_key = k, f_op = opr, f_compare = c, f_index = None, f_indexUsage = None\<rparr>"

definition likes_index :: "string \<Rightarrow> data_index" where
  "likes_index p = \<lparr>ix_path = p, ix_key = ''likes'', ix_type = ''normal'', ix_includeKeys = [],
                   ix_validOperators = [''<'', ''<='', ''=='', ''!='', ''>='', ''>'']\<rparr>"

subsection \<open>Merging the result sets of the indexes\<close>

















section \<open>Comparing values and triggering events (utils and storage modules)\<close>

text \<open>
  Property keys. The keys of an object are strings; \<open>compareValues\<close> turns the keys into
  numbers with \<open>parseInt\<close> when the old value is an array, and a key that is not a number
  becomes \<open>NaN\<close>.
\<close>

datatype pkey = KStr string | KNum int | KNaN

definition digit_char :: "nat \<Rightarrow> char" where
  "digit_char d = char_of (48 + d)"

fun show_nat_aux :: "nat \<Rightarrow> nat \<Rightarrow> string \<Rightarrow> string" where
  "show_nat_aux 0 n acc = acc"
| "show_nat_aux (Suc fuel) n acc =
     (if n < 10 then digit_char n # acc
      else show_nat_aux fuel (n div 10) (digit_char (n mod 10) # acc))"

text \<open>\<open>String(n)\<close> for a natural number: \<open>n + 1\<close> rounds are enough for its digits.\<close>

definition show_nat :: "nat \<Rightarrow> string" where
  "show_nat n = show_nat_aux (Suc n) n []"

definition show_int :: "int \<Rightarrow> string" where
  "show_int i = (if i < 0 then CHR ''-'' # show_nat (nat (- i)) else show_nat (nat i))"

text \<open>\<open>parseInt(string)\<close> without a radix: white space, a sign, the prefix \<open>0x\<close> for
  radix 16, then the longest run of digits; \<open>NaN\<close> when there is no digit.\<close>

definition is_whitespace :: "char \<Rightarrow> bool" where
  "is_whitespace c \<longleftrightarrow> (of_char c :: nat) \<in> {9, 10, 11, 12, 13, 32, 160}"

definition digit_of :: "char \<Rightarrow> nat option" where
  "digit_of c =
     (let n = (of_char c :: nat) in
      if 48 \<le> n \<and> n \<le> 57 then Some (n - 48)
      else if 97 \<le> n \<and> n \<le> 102 then Some (n - 87)
      else if 65 \<le> n \<and> n \<le> 70 then Some (n - 55)
      else None)"

definition is_digit_in :: "nat \<Rightarrow> char \<Rightarrow> bool" where
  "is_digit_in radix c \<longleftrightarrow> (case digit_of c of None \<Rightarrow> False | Some d \<Rightarrow> d < radix)"

definition digits_value :: "nat \<Rightarrow> string \<Rightarrow> nat" where
  "digits_value radix ds = foldl (\<lambda>acc c. acc * radix + (case digit_of c of Some d \<Rightarrow> d | None \<Rightarrow> 0)) 0 ds"

definition parseInt :: "string \<Rightarrow> pkey" where
  "parseInt s =
     (let s1 = dropWhile is_whitespace s;
          neg = (case s1 of c # r \<Rightarrow> c = CHR ''-'' | [] \<Rightarrow> False);
          s2 = (case s1 of c # r \<Rightarrow> if c = CHR ''-'' \<or> c = CHR ''+'' then r else s1 | [] \<Rightarrow> s1);
          hex = (case s2 of a # b # r \<Rightarrow> a = CHR ''0'' \<and> (b = CHR ''x'' \<or> b = CHR ''X'') | _ \<Rightarrow> False);
          radix = (if hex then 16 else 10);
          s3 = (if hex then drop 2 s2 else s2);
          ds = takeWhile (is_digit_in radix) s3
      in if ds = [] then KNaN
         else KNum ((if neg then - 1 else 1) * int (digits_value radix ds)))"

fun property_name :: "pkey \<Rightarrow> string" where
  "property_name (KStr s) = s"
| "property_name (KNum n) = show_int n"
| "property_name KNaN = ''NaN''"

text \<open>\<open>Object.keys(value)\<close> and the property read \<open>value[name]\<close>.\<close>

fun js_keys :: "jsval \<Rightarrow> string list" where
  "js_keys (JArray xs) = map show_nat [0 ..< length xs]"
| "js_keys (JObject kvs) = map fst kvs"
| "js_keys (JPathReference p) = [''path'']"
| "js_keys v = []"

fun js_get :: "jsval \<Rightarrow> string \<Rightarrow> jsval" where
  "js_get (JArray xs) name =
     (case find (\<lambda>i. show_nat i = name) [0 ..< length xs] of
        Some i \<Rightarrow> xs ! i
      | None \<Rightarrow> if name = ''length'' then JNumber (int (length xs)) else JUndefined)"
| "js_get (JObject kvs) name = (case map_of kvs name of Some v \<Rightarrow> v | None \<Rightarrow> JUndefined)"
| "js_get (JPathReference p) name = (if name = ''path'' then JString p else JUndefined)"
| "js_get v name = JUndefined"

text \<open>\<open>typeof\<close>, \<open>===\<close> and the tests of \<open>compareValues\<close>. Two composite values, dates
  or buffers are never the same object here; \<open>compareValues_same\<close> below shows that the
  structural comparison gives the answer of the shortcut \<open>oldVal === newVal\<close> on one and the
  same object.\<close>

fun typeof :: "jsval \<Rightarrow> string" where
  "typeof JUndefined = ''undefined''"
| "typeof (JNumber n) = ''number''"
| "typeof (JBoolean b) = ''boolean''"
| "typeof (JString s) = ''string''"
| "typeof v = ''object''"

fun strict_eq :: "jsval \<Rightarrow> jsval \<Rightarrow> bool" where
  "strict_eq JUndefined JUndefined = True"
| "strict_eq JNull JNull = True"
| "strict_eq (JNumber a) (JNumber b) = (a = b)"
| "strict_eq (JBoolean a) (JBoolean b) = (a = b)"
| "strict_eq (JString a) (JString b) = (a = b)"
| "strict_eq a b = False"

fun is_void :: "jsval \<Rightarrow> bool" where
  "is_void JUndefined = True"
| "is_void JNull = True"
| "is_void v = False"

fun isTypedArray :: "jsval \<Rightarrow> bool" where
  "isTypedArray (JArrayBuffer bs) = True"
| "isTypedArray v = False"

fun is_Date :: "jsval \<Rightarrow> bool" where
  "is_Date (JDate d) = True"
| "is_Date v = False"

fun is_Array :: "jsval \<Rightarrow> bool" where
  "is_Array (JArray xs) = True"
| "is_Array v = False"

fun bytes_of :: "jsval \<Rightarrow> nat list" where
  "bytes_of (JArrayBuffer bs) = bs"
| "bytes_of v = []"

fun getTime :: "jsval \<Rightarrow> int" where
  "getTime (JDate d) = d"
| "getTime v = 0"

datatype cmp_result =
    Identical | Added | Removed | Changed
  | Diff "pkey list" "pkey list" "(pkey \<times> cmp_result) list"

definition object_keys :: "bool \<Rightarrow> jsval \<Rightarrow> pkey list" where
  "object_keys isArray v = (if isArray then map parseInt (js_keys v) else map KStr (js_keys v))"

text \<open>\<open>Array.prototype.includes\<close> finds \<open>NaN\<close>; \<open>indexOf\<close> does not.\<close>

definition js_includes :: "pkey list \<Rightarrow> pkey \<Rightarrow> bool" where
  "js_includes ks k \<longleftrightarrow> k \<in> set ks"

definition indexOf_found :: "pkey list \<Rightarrow> pkey \<Rightarrow> bool" where
  "indexOf_found ks k \<longleftrightarrow> k \<noteq> KNaN \<and> k \<in> set ks"

fun weight :: "jsval \<Rightarrow> nat" where
  "weight (JArray xs) = Suc (sum_list (map weight xs))"
| "weight (JObject kvs) = Suc (sum_list (map (\<lambda>kv. weight (snd kv)) kvs))"
| "weight (JPathReference p) = 1"
| "weight v = 0"

lemma weight_elem: "x \<in> set xs \<Longrightarrow> weight x \<le> sum_list (map weight xs)"
  by (induction xs) auto

lemma weight_entry: "(k, v) \<in> set kvs \<Longrightarrow> weight v \<le> sum_list (map (\<lambda>kv. weight (snd kv)) kvs)"
  by (induction kvs) auto

lemma weight_js_get:
  assumes "\<not> is_void v" "\<not> isTypedArray v" "\<not> is_Date v" "typeof v = ''object''"
  shows "weight (js_get v name) < weight v"
proof (cases v)
  case (JArray xs)
  show ?thesis
  proof (cases "find (\<lambda>i. show_nat i = name) [0 ..< length xs]")
    case None
    with JArray show ?thesis by simp
  next
    case (Some i)
    then have "i < length xs" by (auto simp: find_Some_iff)
    then have "weight (xs ! i) \<le> sum_list (map weight xs)" by (intro weight_elem) simp
    with JArray Some show ?thesis by simp
  qed
next
  case (JObject kvs)
  show ?thesis
  proof (cases "map_of kvs name")
    case None
    with JObject show ?thesis by simp
  next
    case (Some w)
    then have "(name, w) \<in> set kvs" by (rule map_of_SomeD)
    from weight_entry[OF this] JObject Some show ?thesis by simp
  qed
qed (use assms in simp_all)

lemma compare_decreases:
  assumes ne: "\<not> strict_eq oldVal newVal" and ty: "typeof oldVal = typeof newVal"
    and v: "is_void oldVal \<longleftrightarrow> is_void newVal"
    and t: "\<not> isTypedArray oldVal" and d: "\<not> is_Date oldVal"
    and ob: "typeof oldVal = ''object'' \<or> typeof newVal = ''object''"
  shows "weight (js_get oldVal name) < weight oldVal"
proof -
  from ob ty have ob1: "typeof oldVal = ''object''" by auto
  have "\<not> is_void oldVal"
  proof
    assume a: "is_void oldVal"
    with ob1 have o: "oldVal = JNull" by (cases oldVal) simp_all
    from a v have "is_void newVal" by simp
    with ty ob1 have "newVal = JNull" by (cases newVal) simp_all
    with o ne show False by simp
  qed
  with t d ob1 show ?thesis by (intro weight_js_get) simp_all
qed

function compareValues :: "jsval \<Rightarrow> jsval \<Rightarrow> cmp_result" where
  "compareValues oldVal newVal =
     (if strict_eq oldVal newVal then Identical
      else if is_void oldVal \<and> \<not> is_void newVal then Added
      else if \<not> is_void oldVal \<and> is_void newVal then Removed
      else if typeof oldVal \<noteq> typeof newVal then Changed
      else if isTypedArray oldVal \<or> isTypedArray newVal then
        (if \<not> isTypedArray oldVal \<or> \<not> isTypedArray newVal then Changed
         else if length (bytes_of oldVal) \<noteq> length (bytes_of newVal) then Changed
         else if bytes_of oldVal \<noteq> bytes_of newVal then Changed else Identical)
      else if is_Date oldVal \<or> is_Date newVal then
        (if \<not> is_Date oldVal \<or> \<not> is_Date newVal then Changed
         else if getTime oldVal \<noteq> getTime newVal then Changed else Identical)
      else if typeof oldVal = ''object'' then
        (let isArray = is_Array oldVal;
             oldKeys = object_keys isArray oldVal;
             newKeys = object_keys isArray newVal;
             removedKeys = filter (\<lambda>k. \<not> js_includes newKeys k) oldKeys;
             addedKeys = filter (\<lambda>k. \<not> js_includes oldKeys k) newKeys;
             changedKeys = concat (map (\<lambda>k.
                 if indexOf_found oldKeys k
                 then (let c = compareValues (js_get oldVal (property_name k))
                                             (js_get newVal (property_name k))
                       in if c \<noteq> Identical then [(k, c)] else [])
                 else []) newKeys)
         in if addedKeys = [] \<and> removedKeys = [] \<and> changedKeys = [] then Identical
            else Diff addedKeys removedKeys changedKeys)
      else if \<not> strict_eq oldVal newVal then Changed
      else Identical)"
  by pat_completeness auto
termination
  by (relation "measure (\<lambda>(a, b). weight a)") (auto intro!: compare_decreases)

declare compareValues.simps [simp del]

text \<open>\<open>getChildValues(childKey, oldValue, newValue)\<close>.\<close>

definition child_of :: "jsval \<Rightarrow> string \<Rightarrow> jsval" where
  "child_of v childKey =
     (if v = JNull then JNull
      else case js_get v childKey of JUndefined \<Rightarrow> JNull | c \<Rightarrow> c)"

definition getChildValues :: "string \<Rightarrow> jsval \<Rightarrow> jsval \<Rightarrow> jsval \<times> jsval" where
  "getChildValues childKey oldValue newValue = (child_of oldValue childKey, child_of newValue childKey)"





section \<open>Writing a node to its own record (storage-custom module)\<close>

text \<open>
  \<open>CustomStorage._writeNode(path, value, { transaction, merge, revision })\<close>. A path is the
  list of its keys (\<open>PathInfo.getPathKeys\<close>): a string key or the number of an array index;
  keys are not empty and hold no path separator. The backend transaction is the list of the
  records it holds; \<open>transaction.get\<close> hands out a copy of the record, and the conversion
  between a value and its stored form (\<open>_storeNode\<close>, \<open>_processReadNodeValue\<close>) is left
  out, so a record holds the value itself: the inline children for an object or an array.
  The child writes of one call, which the source starts together and awaits with
  \<open>Promise.all\<close>, run one after the other, and the record of the node is stored last.
  \<open>Date.now()\<close> and the host function \<open>isNaN\<close> on strings come with the environment.
\<close>

datatype value_type = OBJECT | ARRAY | NUMBER | BOOLEAN | STRING | DATETIME | BINARY | REFERENCE

record node_record =
  n_type :: value_type
  n_value :: jsval
  n_revision :: string
  revision_nr :: nat
  created :: nat
  modified :: nat

type_synonym node_path = "pkey list"

type_synonym store = "(node_path \<times> node_record) list"

record write_env =
  maxInlineValueSize :: int
  removeVoidProperties :: bool
  isNaN_str :: "string \<Rightarrow> bool"
  date_now :: nat

definition st_get :: "store \<Rightarrow> node_path \<Rightarrow> node_record option" where
  "st_get st p = map_of st p"

definition st_set :: "store \<Rightarrow> node_path \<Rightarrow> node_record \<Rightarrow> store" where
  "st_set st p r = (p, r) # filter (\<lambda>e. fst e \<noteq> p) st"

definition st_removeMultiple :: "store \<Rightarrow> node_path list \<Rightarrow> store" where
  "st_removeMultiple st ps = filter (\<lambda>e. fst e \<notin> set ps) st"

definition isParentOf :: "node_path \<Rightarrow> node_path \<Rightarrow> bool" where
  "isParentOf p c \<longleftrightarrow> c \<noteq> [] \<and> butlast c = p"

definition isAncestorOf :: "node_path \<Rightarrow> node_path \<Rightarrow> bool" where
  "isAncestorOf p c \<longleftrightarrow> length p < length c \<and> take (length p) c = p"

definition childrenOf :: "store \<Rightarrow> node_path \<Rightarrow> node_path list" where
  "childrenOf st p = filter (isParentOf p) (map fst st)"

definition descendantsOf :: "store \<Rightarrow> node_path \<Rightarrow> node_path list" where
  "descendantsOf st p = filter (isAncestorOf p) (map fst st)"

text \<open>\<open>PathInfo.getChildPath\<close>: an array index cannot follow the root path.\<close>

definition getChildPath :: "node_path \<Rightarrow> pkey \<Rightarrow> js_error + node_path" where
  "getChildPath p k =
     (case k of
        KStr s \<Rightarrow> Inr (p @ [k])
      | _ \<Rightarrow> if p = [] then Inl TypeError else Inr (p @ [k]))"

definition child_key :: "bool \<Rightarrow> string \<Rightarrow> pkey" where
  "child_key isArray key = (if isArray then parseInt key else KStr key)"

text \<open>The own properties of the value written: an array is turned into an object with the
  indices as keys.\<close>

fun to_object :: "jsval \<Rightarrow> (string \<times> jsval) list" where
  "to_object (JArray xs) = zip (map show_nat [0 ..< length xs]) xs"
| "to_object (JObject kvs) = kvs"
| "to_object v = []"

definition obj_delete :: "string \<Rightarrow> (string \<times> jsval) list \<Rightarrow> (string \<times> jsval) list" where
  "obj_delete k obj = filter (\<lambda>e. fst e \<noteq> k) obj"

definition obj_has :: "(string \<times> jsval) list \<Rightarrow> string \<Rightarrow> bool" where
  "obj_has obj k \<longleftrightarrow> k \<in> fst ` set obj"

text \<open>\<open>_storeNode\<close>: the inline children of an object or array are converted one by one;
  \<open>null\<close> is refused, and the branch for a path reference reads the variable \<open>child\<close>,
  which does not exist.\<close>

fun getTypedChildValue :: "jsval \<Rightarrow> js_error option" where
  "getTypedChildValue JNull = Some (Error ''Not allowed to store null values. remove the property'')"
| "getTypedChildValue (JPathReference p) = Some ReferenceError"
| "getTypedChildValue v = None"

definition storeNode :: "store \<Rightarrow> node_path \<Rightarrow> node_record \<Rightarrow> js_error option \<times> store" where
  "storeNode st p r =
     (if n_type r = OBJECT \<or> n_type r = ARRAY then
        (case List.map_filter (\<lambda>e. getTypedChildValue (snd e)) (to_object (n_value r)) of
           e # es \<Rightarrow> (Some e, st)
         | [] \<Rightarrow> (None, st_set st p r))
      else (None, st_set st p r))"

text \<open>\<open>_deleteNode\<close>: the node and all its descendants.\<close>

definition deleteNode :: "store \<Rightarrow> node_path \<Rightarrow> store" where
  "deleteNode st p = st_removeMultiple st (p # descendantsOf st p)"

text \<open>The loop \<open>Object.keys(value).forEach\<close> that sorts the properties of the new value
  into inline values of the main node and values for child records. Its state is the value of
  the main node, the child values, and the new value (which loses its void properties).\<close>

record sorted_props =
  main_value :: "(string \<times> jsval) list"
  childNodeValues :: "(string \<times> jsval) list"
  new_value :: "(string \<times> jsval) list"

fun sort_props :: "write_env \<Rightarrow> (string \<times> jsval) list \<Rightarrow> sorted_props \<Rightarrow> js_error + sorted_props" where
  "sort_props env [] s = Inr s"
| "sort_props env ((key, val) # rest) s =
     (let s1 = s\<lparr>main_value := obj_delete key (main_value s)\<rparr> in
      if val = JNull then sort_props env rest s1
      else if val = JUndefined then
        (if removeVoidProperties env
         then sort_props env rest (s1\<lparr>new_value := obj_delete key (new_value s1)\<rparr>)
         else Inl (Error ''Cannot store undefined values''))
      else
        (case valueFitsInline (maxInlineValueSize env) val of
           Inl e \<Rightarrow> Inl e
         | Inr True \<Rightarrow> sort_props env rest (s1\<lparr>main_value := main_value s1 @ [(key, val)]\<rparr>)
         | Inr False \<Rightarrow>
             sort_props env rest (s1\<lparr>childNodeValues := obj_delete key (childNodeValues s1) @ [(key, val)]\<rparr>)))"

text \<open>The type of the main node and, for a value that is no object or array, its value.\<close>

definition main_type :: "node_record option \<Rightarrow> jsval \<Rightarrow> value_type" where
  "main_type currentRow v =
     (case v of
        JArray xs \<Rightarrow> ARRAY
      | JPathReference p \<Rightarrow> REFERENCE
      | JArrayBuffer bs \<Rightarrow> BINARY
      | JString s \<Rightarrow> STRING
      | _ \<Rightarrow> (case currentRow of
                Some row \<Rightarrow> if n_type row = ARRAY then ARRAY else OBJECT
              | None \<Rightarrow> OBJECT))"

definition isObjectOrArray :: "value_type \<Rightarrow> bool" where
  "isObjectOrArray t \<longleftrightarrow> t = OBJECT \<or> t = ARRAY"

text \<open>\<open>isExhaustive = keys.every((k, index, arr) => arr.includes(index.toString()))\<close>.\<close>

definition isExhaustive :: "string list \<Rightarrow> bool" where
  "isExhaustive keys \<longleftrightarrow> list_all (\<lambda>index. show_nat index \<in> set keys) [0 ..< length keys]"

definition array_merge_error :: js_error where
  "array_merge_error =
     Error ''Elements cannot be inserted beyond, or removed before the end of an array''"

definition array_create_error :: js_error where
  "array_create_error = Error ''Cannot store arrays with missing entries''"

text \<open>Everything \<open>_writeNode\<close> works out before it writes: the checks at its head, the
  current record, the sorted properties, the lists of child keys with the changes, and the
  check of the array keys. Where the main node holds a string, the test
  \<open>key in mainNode.value\<close> on the keys of the child records throws a TypeError.\<close>

record write_plan =
  currentRow :: "node_record option"
  mainNode_type :: value_type
  mainNode_value :: jsval
  child_values :: "(string \<times> jsval) list"
  delete_keys :: "string list"
  dedicated_keys :: "string list"

definition push_new :: "string list \<Rightarrow> string list \<Rightarrow> string list" where
  "push_new ks new = foldl (\<lambda>acc k. if k \<in> set acc then acc else acc @ [k]) new ks"

definition head_checks :: "write_env \<Rightarrow> node_path \<Rightarrow> jsval \<Rightarrow> js_error option" where
  "head_checks env p v =
     (case valueFitsInline (maxInlineValueSize env) v of
        Inl e \<Rightarrow> Some e
      | Inr fits \<Rightarrow>
          if fits \<and> p \<noteq> [] then Some (Error ''invalid value to store in its own node'')
          else if p = [] \<and> (typeof v \<noteq> ''object'' \<or> is_Array v)
            then Some (Error ''Invalid root node value. Must be an object'')
          else None)"

definition merge_checks :: "write_env \<Rightarrow> bool \<Rightarrow> node_record option \<Rightarrow> jsval \<Rightarrow> js_error option" where
  "merge_checks env merge row v =
     (case row of
        None \<Rightarrow> None
      | Some r \<Rightarrow>
          if \<not> merge then None
          else if n_type r = ARRAY \<and> \<not> is_Array v \<and> typeof v = ''object''
                  \<and> list_ex (isNaN_str env) (js_keys v)
            then Some (Error ''Cannot merge existing array with an object'')
          else if is_Array v \<and> n_type r \<noteq> ARRAY
            then Some (Error ''Cannot merge existing object with an array'')
          else None)"

definition plan_props :: "write_env \<Rightarrow> node_record option \<Rightarrow> jsval \<Rightarrow> bool \<Rightarrow> js_error + sorted_props" where
  "plan_props env row v merge =
     (let mtype = main_type row v;
          currentIsObjectOrArray = (case row of Some r \<Rightarrow> isObjectOrArray (n_type r) | None \<Rightarrow> False);
          newIsObjectOrArray = isObjectOrArray mtype;
          currentObject = (case row of Some r \<Rightarrow> to_object (n_value r) | None \<Rightarrow> []);
          main0 = (if currentIsObjectOrArray \<and> newIsObjectOrArray then currentObject else []);
          value0 = to_object v;
          value1 = (if newIsObjectOrArray \<and> \<not> merge
                    then value0 @ map (\<lambda>k. (k, JNull)) (filter (\<lambda>k. \<not> obj_has value0 k) (map fst main0))
                    else value0)
      in if newIsObjectOrArray
         then sort_props env value1 \<lparr>main_value = main0, childNodeValues = [], new_value = value1\<rparr>
         else Inr \<lparr>main_value = main0, childNodeValues = [], new_value = value1\<rparr>)"

definition plan_changes :: "store \<Rightarrow> node_path \<Rightarrow> jsval \<Rightarrow> bool \<Rightarrow> node_record option \<Rightarrow> sorted_props
    \<Rightarrow> js_error + write_plan" where
  "plan_changes st p v merge row s =
     (let mtype = main_type row v;
          currentIsObjectOrArray = (case row of Some r \<Rightarrow> isObjectOrArray (n_type r) | None \<Rightarrow> False);
          newIsObjectOrArray = isObjectOrArray mtype;
          currentObject = (case row of Some r \<Rightarrow> to_object (n_value r) | None \<Rightarrow> []);
          current_inline = (if currentIsObjectOrArray then map fst currentObject else []);
          mvalue = (if newIsObjectOrArray then JObject (main_value s) else v);
          isArray = (mtype = ARRAY)
      in case row of
           None \<Rightarrow>
             if isArray \<and> \<not> isExhaustive (map fst (main_value s) @ map fst (childNodeValues s))
             then Inl array_create_error
             else Inr \<lparr>currentRow = None, mainNode_type = mtype, mainNode_value = mvalue,
                       child_values = childNodeValues s, delete_keys = [], dedicated_keys = []\<rparr>
         | Some r \<Rightarrow>
             if currentIsObjectOrArray \<or> newIsObjectOrArray then
               (let keys = map (\<lambda>c. property_name (last c)) (childrenOf st p);
                    children_current = current_inline @ keys;
                    children_new = (if newIsObjectOrArray
                                    then push_new (map fst (new_value s)) (if merge then children_current else [])
                                    else []);
                    changes_insert = filter (\<lambda>k. k \<notin> set children_current) children_new;
                    changes_delete = (if merge
                                      then map fst (filter (\<lambda>e. snd e = JNull) (new_value s))
                                      else filter (\<lambda>k. k \<notin> set children_new) children_current);
                    changes_update = filter (\<lambda>k. k \<in> set children_current \<and> k \<notin> set changes_delete) children_new;
                    movingNodes = filter (\<lambda>k. obj_has (main_value s) k) keys
                in if isArray \<and> merge \<and> (length changes_insert > 0 \<or> length changes_delete > 0)
                      \<and> \<not> isExhaustive (changes_update @ changes_insert)
                   then Inl array_merge_error
                   else if \<not> newIsObjectOrArray \<and> keys \<noteq> [] then Inl TypeError
                   else Inr \<lparr>currentRow = Some r, mainNode_type = mtype, mainNode_value = mvalue,
                             child_values = childNodeValues s,
                             delete_keys = changes_delete @ movingNodes, dedicated_keys = keys\<rparr>)
             else Inr \<lparr>currentRow = Some r, mainNode_type = mtype, mainNode_value = mvalue,
                       child_values = [], delete_keys = [], dedicated_keys = []\<rparr>)"

definition write_plan :: "write_env \<Rightarrow> store \<Rightarrow> node_path \<Rightarrow> jsval \<Rightarrow> bool \<Rightarrow> js_error + write_plan" where
  "write_plan env st p v merge =
     (case head_checks env p v of
        Some e \<Rightarrow> Inl e
      | None \<Rightarrow>
          (case merge_checks env merge (st_get st p) v of
             Some e \<Rightarrow> Inl e
           | None \<Rightarrow>
               (case plan_props env (st_get st p) v merge of
                  Inl e \<Rightarrow> Inl e
                | Inr s \<Rightarrow> plan_changes st p v merge (st_get st p) s)))"

text \<open>A measure for the recursion: the number of nodes of a value.\<close>

fun vsize :: "jsval \<Rightarrow> nat" where
  "vsize (JArray xs) = Suc (sum_list (map vsize xs))"
| "vsize (JObject kvs) = Suc (sum_list (map (\<lambda>kv. vsize (snd kv)) kvs))"
| "vsize v = Suc 0"

definition props_size :: "(string \<times> jsval) list \<Rightarrow> nat" where
  "props_size kvs = sum_list (map (\<lambda>kv. vsize (snd kv)) kvs)"

fun child_weight :: "jsval \<Rightarrow> nat" where
  "child_weight JNull = 0"
| "child_weight v = vsize v"

definition props_weight :: "(string \<times> jsval) list \<Rightarrow> nat" where
  "props_weight kvs = sum_list (map (\<lambda>kv. child_weight (snd kv)) kvs)"

lemma child_weight_le: "child_weight v \<le> vsize v"
  by (cases v) simp_all

lemma props_weight_le: "props_weight kvs \<le> props_size kvs"
  unfolding props_weight_def props_size_def
  by (induction kvs) (simp_all add: add_mono child_weight_le)

lemma props_size_delete: "props_size (obj_delete k kvs) \<le> props_size kvs"
  unfolding props_size_def obj_delete_def by (induction kvs) simp_all

lemma props_size_append: "props_size (a @ b) = props_size a + props_size b"
  by (simp add: props_size_def)

lemma props_weight_append: "props_weight (a @ b) = props_weight a + props_weight b"
  by (simp add: props_weight_def)

lemma props_weight_nulls: "props_weight (map (\<lambda>k. (k, JNull)) ks) = 0"
  by (induction ks) (simp_all add: props_weight_def)

lemma zip_size: "length ks = length xs \<Longrightarrow> props_size (zip ks xs) = sum_list (map vsize xs)"
  unfolding props_size_def by (induction ks xs rule: list_induct2) simp_all

lemma to_object_size: "props_size (to_object v) < vsize v"
proof (cases v)
  case (JArray xs)
  then show ?thesis using zip_size[of "map show_nat [0 ..< length xs]" xs] by simp
next
  case (JObject kvs)
  then show ?thesis by (simp add: props_size_def)
qed (simp_all add: props_size_def)

lemma sort_props_size:
  "sort_props env kvs s = Inr s' \<Longrightarrow>
     props_size (childNodeValues s') \<le> props_size (childNodeValues s) + props_weight kvs"
proof (induction kvs arbitrary: s)
  case Nil
  then show ?case by simp
next
  case (Cons kv kvs)
  obtain key val where kv: "kv = (key, val)" by (cases kv)
  define s1 where "s1 = s\<lparr>main_value := obj_delete key (main_value s)\<rparr>"
  have c1: "childNodeValues s1 = childNodeValues s" by (simp add: s1_def)
  show ?case
  proof (cases "val = JNull")
    case True
    with Cons.prems kv have "sort_props env kvs s1 = Inr s'" by (simp add: s1_def Let_def)
    from Cons.IH[OF this] True kv c1 show ?thesis by (simp add: props_weight_def)
  next
    case nn: False
    show ?thesis
    proof (cases "val = JUndefined")
      case True
      with Cons.prems kv nn have r: "removeVoidProperties env"
        "sort_props env kvs (s1\<lparr>new_value := obj_delete key (new_value s1)\<rparr>) = Inr s'"
        by (auto simp: s1_def Let_def split: if_splits)
      from Cons.IH[OF r(2)] kv c1 show ?thesis by (simp add: props_weight_def)
    next
      case nu: False
      from nn have cw: "child_weight val = vsize val" by (cases val) simp_all
      show ?thesis
      proof (cases "valueFitsInline (maxInlineValueSize env) val")
        case (Inl e)
        with Cons.prems kv nn nu show ?thesis by (simp add: s1_def Let_def)
      next
        case (Inr fits)
        show ?thesis
        proof (cases fits)
          case True
          with Inr Cons.prems kv nn nu
          have "sort_props env kvs (s1\<lparr>main_value := main_value s1 @ [(key, val)]\<rparr>) = Inr s'"
            by (simp add: s1_def Let_def)
          from Cons.IH[OF this] kv c1 show ?thesis by (simp add: props_weight_def)
        next
          case False
          with Inr Cons.prems kv nn nu
          have "sort_props env kvs
                 (s1\<lparr>childNodeValues := obj_delete key (childNodeValues s1) @ [(key, val)]\<rparr>) = Inr s'"
            by (simp add: s1_def Let_def)
          from Cons.IH[OF this]
          have "props_size (childNodeValues s')
                 \<le> props_size (obj_delete key (childNodeValues s1) @ [(key, val)]) + props_weight kvs"
            by simp
          also have "props_size (obj_delete key (childNodeValues s1) @ [(key, val)])
                 \<le> props_size (childNodeValues s) + vsize val"
            using props_size_delete[of key "childNodeValues s1"] c1
            by (simp add: props_size_append) (simp add: props_size_def)
          finally show ?thesis using kv cw by (simp add: props_weight_def)
        qed
      qed
    qed
  qed
qed

lemma plan_props_size:
  assumes "plan_props env row v merge = Inr s"
  shows "props_size (childNodeValues s) < vsize v"
proof (cases "isObjectOrArray (main_type row v)")
  case False
  with assms have "childNodeValues s = []" by (auto simp: plan_props_def Let_def)
  then show ?thesis by (cases v) (simp_all add: props_size_def)
next
  case True
  let ?main0 = "(if (case row of Some r \<Rightarrow> isObjectOrArray (n_type r) | None \<Rightarrow> False)
       then (case row of Some r \<Rightarrow> to_object (n_value r) | None \<Rightarrow> []) else [])"
  let ?value1 = "(if \<not> merge
       then to_object v @ map (\<lambda>k. (k, JNull)) (filter (\<lambda>k. \<not> obj_has (to_object v) k) (map fst ?main0))
       else to_object v)"
  have "plan_props env row v merge
      = sort_props env ?value1 \<lparr>main_value = ?main0, childNodeValues = [], new_value = ?value1\<rparr>"
    unfolding plan_props_def Let_def by (simp only: True if_True simp_thms)
  with assms
  have "sort_props env ?value1 \<lparr>main_value = ?main0, childNodeValues = [], new_value = ?value1\<rparr> = Inr s"
    by simp
  from sort_props_size[OF this]
  have "props_size (childNodeValues s) \<le> props_weight ?value1" by (simp add: props_size_def)
  also have "props_weight ?value1 = props_weight (to_object v)"
  proof (cases merge)
    case True
    then show ?thesis by (simp only: not_True_eq_False if_False)
  next
    case False
    have "props_weight (to_object v @ map (\<lambda>k. (k, JNull))
            (filter (\<lambda>k. \<not> obj_has (to_object v) k) (map fst ?main0))) = props_weight (to_object v)"
      unfolding props_weight_append props_weight_nulls by (rule add_0_right)
    with False show ?thesis by (simp only: not_False_eq_True if_True)
  qed
  also have "\<dots> \<le> props_size (to_object v)" by (rule props_weight_le)
  also have "\<dots> < vsize v" by (rule to_object_size)
  finally show ?thesis .
qed

lemma plan_changes_children:
  assumes "plan_changes st p v merge row s = Inr pl"
  shows "child_values pl = childNodeValues s \<or> child_values pl = []"
  using assms
  by (auto simp: plan_changes_def Let_def split: option.splits if_splits)

lemma write_plan_children_size:
  assumes "write_plan env st p v merge = Inr pl"
  shows "props_size (child_values pl) < vsize v"
proof -
  from assms obtain s where s: "plan_props env (st_get st p) v merge = Inr s"
    and c: "plan_changes st p v merge (st_get st p) s = Inr pl"
    by (auto simp: write_plan_def split: option.splits sum.splits)
  from plan_changes_children[OF c] plan_props_size[OF s] show ?thesis
    by (auto simp: props_size_def)
qed

lemma vsize_pos: "0 < vsize v"
  by (cases v) simp_all

text \<open>The record stored for the node: on an update the revision and the creation time of the
  current record are kept and its revision number is incremented; a new record starts at
  revision number 1.\<close>

definition new_record :: "write_env \<Rightarrow> string \<Rightarrow> write_plan \<Rightarrow> node_record" where
  "new_record env revision pl =
     (case currentRow pl of
        Some row \<Rightarrow>
          \<lparr>n_type = mainNode_type pl, n_value = mainNode_value pl, n_revision = n_revision row,
           revision_nr = revision_nr row + 1, created = created row, modified = date_now env\<rparr>
      | None \<Rightarrow>
          \<lparr>n_type = mainNode_type pl, n_value = mainNode_value pl, n_revision = revision,
           revision_nr = 1, created = date_now env, modified = date_now env\<rparr>)"

fun delete_children :: "store \<Rightarrow> node_path \<Rightarrow> bool \<Rightarrow> string list \<Rightarrow> js_error option \<times> store" where
  "delete_children st p isArray [] = (None, st)"
| "delete_children st p isArray (key # rest) =
     (case getChildPath p (child_key isArray key) of
        Inl e \<Rightarrow> (Some e, st)
      | Inr childPath \<Rightarrow> delete_children (deleteNode st childPath) p isArray rest)"

function writeNode :: "write_env \<Rightarrow> string \<Rightarrow> store \<Rightarrow> node_path \<Rightarrow> jsval \<Rightarrow> bool
      \<Rightarrow> js_error option \<times> store"
  and writeChildren :: "write_env \<Rightarrow> string \<Rightarrow> store \<Rightarrow> node_path \<Rightarrow> bool
      \<Rightarrow> (string \<times> jsval) list \<Rightarrow> js_error option \<times> store"
where
  "writeNode env revision st p v merge =
     (case write_plan env st p v merge of
        Inl e \<Rightarrow> (Some e, st)
      | Inr pl \<Rightarrow>
          (case writeChildren env revision st p (mainNode_type pl = ARRAY) (child_values pl) of
             (Some e, st1) \<Rightarrow> (Some e, st1)
           | (None, st1) \<Rightarrow>
               (case delete_children st1 p (mainNode_type pl = ARRAY) (delete_keys pl) of
                  (Some e, st2) \<Rightarrow> (Some e, st2)
                | (None, st2) \<Rightarrow> storeNode st2 p (new_record env revision pl))))"
| "writeChildren env revision st p isArray [] = (None, st)"
| "writeChildren env revision st p isArray ((key, childValue) # rest) =
     (case getChildPath p (child_key isArray key) of
        Inl e \<Rightarrow> (Some e, st)
      | Inr childPath \<Rightarrow>
          (case writeNode env revision st childPath childValue False of
             (Some e, st1) \<Rightarrow> (Some e, st1)
           | (None, st1) \<Rightarrow> writeChildren env revision st1 p isArray rest))"
  by pat_completeness auto
termination
proof (relation "measure (\<lambda>x. case x of
          Inl (env, revision, st, p, v, merge) \<Rightarrow> 2 * vsize v
        | Inr (env, revision, st, p, isArray, cs) \<Rightarrow> 2 * props_size cs + 1)")
  show "wf (measure (\<lambda>x. case x of
          Inl (env, revision, st, p, v, merge) \<Rightarrow> 2 * vsize v
        | Inr (env, revision, st, p, isArray, cs) \<Rightarrow> 2 * props_size cs + 1))" by simp
qed (auto simp: props_size_def vsize_pos dest!: write_plan_children_size)

declare writeNode.simps [simp del]

text \<open>A store with the array \<open>["u","v","w"]\<close> in its own record at \<open>arr\<close>, and an
  environment with the default settings.\<close>

definition env0 :: write_env where
  "env0 = \<lparr>maxInlineValueSize = 50, removeVoidProperties = False,
           isNaN_str = (\<lambda>k. parseInt k = KNaN), date_now = 2000\<rparr>"

definition arr_record :: node_record where
  "arr_record = \<lparr>n_type = ARRAY,
                  n_value = JObject [(''0'', JString ''u''), (''1'', JString ''v''), (''2'', JString ''w'')],
                  n_revision = ''r0'', revision_nr = 1, created = 1000, modified = 1000\<rparr>"

definition root_record :: node_record where
  "root_record = \<lparr>n_type = OBJECT, n_value = JObject [],
                   n_revision = ''r0'', revision_nr = 1, created = 1000, modified = 1000\<rparr>"

definition arr_store :: store where
  "arr_store = [([KStr ''arr''], arr_record), ([], root_record)]"

text \<open>The inline keys of the record stored at a path.\<close>

definition stored_keys :: "store \<Rightarrow> node_path \<Rightarrow> string list option" where
  "stored_keys st p = map_option (\<lambda>r. map fst (to_object (n_value r))) (st_get st p)"

section \<open>Properties of the node locker\<close>

lemma allowLock_fst: "fst (allowLock ls p t w) \<longleftrightarrow> (\<forall>l \<in> set ls. \<not> conflicts t w l)"
proof (cases "find (conflicts t w) ls")
  case None
  then have "\<forall>l \<in> set ls. \<not> conflicts t w l" by (simp add: find_None_iff)
  with None show ?thesis by (simp add: allowLock_def)
next
  case (Some c)
  then have "c \<in> set ls" "conflicts t w c"
    by (auto simp: find_Some_iff)
  with Some show ?thesis by (auto simp: allowLock_def)
qed

lemma grant_lock_fields:
  "state (grant_lock nt now l) = LOCKED" "tid (grant_lock nt now l) = tid l"
  "forWriting (grant_lock nt now l) = forWriting l" "lock_id (grant_lock nt now l) = lock_id l"
  by (simp_all add: grant_lock_def split: option.splits)

lemma exclusive_map_weaken:
  assumes "exclusive ls"
    and "\<And>l. l \<in> set ls \<Longrightarrow> tid (f l) = tid l \<and> forWriting (f l) = forWriting l
            \<and> (state (f l) = LOCKED \<longrightarrow> state l = LOCKED)"
  shows "exclusive (map f ls)"
  unfolding exclusive_def
proof (intro ballI impI)
  fix a b assume a: "a \<in> set (map f ls)" and b: "b \<in> set (map f ls)"
    and h: "state a = LOCKED \<and> state b = LOCKED \<and> tid a \<noteq> tid b"
  from a obtain a' where a': "a' \<in> set ls" "a = f a'" by auto
  from b obtain b' where b': "b' \<in> set ls" "b = f b'" by auto
  from assms(2)[OF a'(1)] assms(2)[OF b'(1)] h a'(2) b'(2)
  have "state a' = LOCKED \<and> state b' = LOCKED \<and> tid a' \<noteq> tid b'" by simp
  with assms(1) a'(1) b'(1) have "\<not> forWriting a' \<and> \<not> forWriting b'"
    unfolding exclusive_def by blast
  with assms(2)[OF a'(1)] assms(2)[OF b'(1)] a'(2) b'(2)
  show "\<not> forWriting a \<and> \<not> forWriting b" by simp
qed

lemma exclusive_update:
  assumes ex: "exclusive ls"
    and f: "\<And>l. l \<in> set ls \<Longrightarrow> lock_id l = i \<Longrightarrow> tid (f l) = t \<and> forWriting (f l) = w"
    and nc: "\<forall>l \<in> set ls. \<not> conflicts t w l"
  shows "exclusive (map (\<lambda>l. if lock_id l = i then f l else l) ls)"
  unfolding exclusive_def
proof (intro ballI impI)
  let ?g = "\<lambda>l. if lock_id l = i then f l else l"
  fix a b assume a: "a \<in> set (map ?g ls)" and b: "b \<in> set (map ?g ls)"
    and h: "state a = LOCKED \<and> state b = LOCKED \<and> tid a \<noteq> tid b"
  from a obtain a' where a': "a' \<in> set ls" "a = ?g a'" by auto
  from b obtain b' where b': "b' \<in> set ls" "b = ?g b'" by auto
  show "\<not> forWriting a \<and> \<not> forWriting b"
  proof (cases "lock_id a' = i")
    case True note ta = this
    then have fa: "tid a = t" "forWriting a = w" using f[OF a'(1)] a'(2) by simp_all
    show ?thesis
    proof (cases "lock_id b' = i")
      case True
      then have "tid b = t" using f[OF b'(1)] b'(2) by simp
      with fa h show ?thesis by simp
    next
      case False
      then have "b = b'" using b'(2) by simp
      with nc b'(1) have "\<not> conflicts t w b" by simp
      with h fa show ?thesis by (auto simp: conflicts_def)
    qed
  next
    case False
    then have aa: "a = a'" using a'(2) by simp
    show ?thesis
    proof (cases "lock_id b' = i")
      case True
      then have fb: "tid b = t" "forWriting b = w" using f[OF b'(1)] b'(2) by simp_all
      from nc a'(1) aa have "\<not> conflicts t w a" by simp
      with h fb show ?thesis by (auto simp: conflicts_def)
    next
      case False
      then have "b = b'" using b'(2) by simp
      with aa a'(1) b'(1) h ex show ?thesis unfolding exclusive_def by blast
    qed
  qed
qed



lemma find_id_unique:
  assumes "distinct (map lock_id ls)" "find (\<lambda>l. lock_id l = i) ls = Some e"
    "x \<in> set ls" "lock_id x = i"
  shows "x = e"
proof -
  from assms(2) have "e \<in> set ls" "lock_id e = i" by (auto simp: find_Some_iff)
  with assms(1,3,4) show ?thesis by (metis distinct_map inj_onD)
qed

lemma set_waitingFor_ids: "map lock_id (set_waitingFor i c ls) = map lock_id ls"
  unfolding set_waitingFor_def by (induction ls) simp_all

lemma grant_ids: "map lock_id (grant i now ls) = map lock_id ls"
  unfolding grant_def by (induction ls) (simp_all add: grant_lock_fields)

lemma exclusive_set_waitingFor: "exclusive ls \<Longrightarrow> exclusive (set_waitingFor i c ls)"
  unfolding set_waitingFor_def by (rule exclusive_map_weaken) simp_all

lemma conflicts_set_waitingFor:
  "x \<in> set (set_waitingFor i c ls) \<Longrightarrow> \<exists>y \<in> set ls. conflicts t w x = conflicts t w y \<and> lock_id x = lock_id y \<and> tid x = tid y"
proof -
  assume "x \<in> set (set_waitingFor i c ls)"
  then obtain y where "y \<in> set ls" "x = (if lock_id y = i then y\<lparr>waitingFor := map_option lock_id c\<rparr> else y)"
    unfolding set_waitingFor_def by auto
  then show ?thesis by (cases "lock_id y = i") (auto simp: conflicts_def)
qed

lemma set_waitingFor_same:
  assumes "l \<in> set (set_waitingFor i c ls)"
  shows "\<exists>y \<in> set ls. lock_id l = lock_id y \<and> tid l = tid y \<and> forWriting l = forWriting y \<and> state l = state y"
proof -
  from assms obtain y where y: "y \<in> set ls"
     "l = (if lock_id y = i then y\<lparr>waitingFor := map_option lock_id c\<rparr> else y)"
    unfolding set_waitingFor_def by auto
  have "lock_id l = lock_id y \<and> tid l = tid y \<and> forWriting l = forWriting y \<and> state l = state y"
    by (cases "lock_id y = i") (simp_all add: y(2))
  with y(1) show ?thesis by blast
qed

lemma grant_step_exclusive:
  assumes ex: "exclusive ls1"
    and same: "\<And>l. l \<in> set ls1 \<Longrightarrow> lock_id l = i \<Longrightarrow> tid l = t \<and> forWriting l = w"
    and nc: "\<forall>l \<in> set ls1. \<not> conflicts t w l"
  shows "exclusive (grant i now ls1)"
  unfolding grant_def
proof (rule exclusive_update[where t=t and w=w])
  show "exclusive ls1" by (rule ex)
  show "\<And>l. l \<in> set ls1 \<Longrightarrow> lock_id l = i \<Longrightarrow>
         tid (grant_lock False now l) = t \<and> forWriting (grant_lock False now l) = w"
    using same by (simp add: grant_lock_fields)
  show "\<forall>l \<in> set ls1. \<not> conflicts t w l" by (rule nc)
qed

lemma process_one_linv:
  assumes "linv ls" shows "linv (process_one now ls i)"
proof (cases "find (\<lambda>l. lock_id l = i) ls")
  case None
  with assms show ?thesis by (simp add: process_one_def)
next
  case (Some e)
  define c where "c = snd (allowLock ls (path e) (tid e) (forWriting e))"
  define ls1 where "ls1 = set_waitingFor i c ls"
  from assms have ex: "exclusive ls" and d: "distinct (map lock_id ls)" by (simp_all add: linv_def)
  have l1: "linv ls1" using ex d
    by (simp add: linv_def ls1_def exclusive_set_waitingFor set_waitingFor_ids)
  show ?thesis
  proof (cases "fst (allowLock ls (path e) (tid e) (forWriting e))")
    case False
    then have "process_one now ls i = ls1"
      using Some by (simp add: process_one_def Let_def ls1_def c_def)
    with l1 show ?thesis by simp
  next
    case True
    then have nc: "\<forall>l \<in> set ls. \<not> conflicts (tid e) (forWriting e) l" by (simp add: allowLock_fst)
    have nc1: "\<forall>l \<in> set ls1. \<not> conflicts (tid e) (forWriting e) l"
    proof
      fix l assume "l \<in> set ls1"
      from conflicts_set_waitingFor[OF this[unfolded ls1_def], of "tid e" "forWriting e"] nc
      show "\<not> conflicts (tid e) (forWriting e) l" by blast
    qed
    have same: "\<And>l. l \<in> set ls1 \<Longrightarrow> lock_id l = i \<Longrightarrow> tid l = tid e \<and> forWriting l = forWriting e"
    proof -
      fix l assume a: "l \<in> set ls1" "lock_id l = i"
      from set_waitingFor_same[OF a(1)[unfolded ls1_def]] obtain y where
        y: "y \<in> set ls" "lock_id l = lock_id y" "tid l = tid y" "forWriting l = forWriting y" by blast
      from y(2) a(2) have "lock_id y = i" by simp
      from find_id_unique[OF d Some y(1) this] y(3,4)
      show "tid l = tid e \<and> forWriting l = forWriting e" by simp
    qed
    have e1: "exclusive (grant i now ls1)"
      by (rule grant_step_exclusive[OF _ same nc1]) (use l1 in \<open>simp_all add: linv_def\<close>)
    have d1: "distinct (map lock_id (grant i now ls1))"
      using d by (simp add: grant_ids set_waitingFor_ids ls1_def)
    have "process_one now ls i = grant i now ls1"
      using Some True by (simp add: process_one_def Let_def ls1_def c_def)
    with e1 d1 show ?thesis by (simp add: linv_def)
  qed
qed

lemma foldl_process_linv: "linv ls \<Longrightarrow> linv (foldl (process_one now) ls is)"
  by (induction "is" arbitrary: ls) (simp_all add: process_one_linv)

lemma process_one_ids: "map lock_id (process_one now ls i) = map lock_id ls"
  by (simp add: process_one_def Let_def grant_ids set_waitingFor_ids split: option.splits)

lemma foldl_process_ids: "map lock_id (foldl (process_one now) ls is) = map lock_id ls"
  by (induction "is" arbitrary: ls) (simp_all add: process_one_ids)


lemma inv_linv: "locker_inv L \<longleftrightarrow> linv (locks L) \<and> (\<forall>l \<in> set (locks L). lock_id l \<le> lastid L)"
  by (auto simp: locker_inv_def linv_def ids_ok_def)

lemma ids_bound_cong:
  "map lock_id ls' = map lock_id ls \<Longrightarrow> (\<forall>l \<in> set ls'. lock_id l \<le> n) = (\<forall>l \<in> set ls. lock_id l \<le> n)"
proof -
  assume h: "map lock_id ls' = map lock_id ls"
  have "(\<forall>l \<in> set ls'. lock_id l \<le> n) = (\<forall>i \<in> set (map lock_id ls'). i \<le> n)" by simp
  also have "\<dots> = (\<forall>i \<in> set (map lock_id ls). i \<le> n)" by (simp only: h)
  also have "\<dots> = (\<forall>l \<in> set ls. lock_id l \<le> n)" by simp
  finally show ?thesis .
qed

lemma processLockQueue_inv: "locker_inv L \<Longrightarrow> locker_inv (processLockQueue srt now L)"
  unfolding inv_linv processLockQueue_def
  using ids_bound_cong[OF foldl_process_ids] by (simp add: foldl_process_linv)


lemma exclusive_filter: "exclusive ls \<Longrightarrow> exclusive (filter P ls)"
  unfolding exclusive_def by auto

lemma exclusive_append1:
  assumes ex: "exclusive ls"
    and n: "state n = LOCKED \<Longrightarrow> (\<forall>l \<in> set ls. \<not> conflicts (tid n) (forWriting n) l)"
  shows "exclusive (ls @ [n])"
  unfolding exclusive_def
proof (intro ballI impI)
  fix a b assume a: "a \<in> set (ls @ [n])" and b: "b \<in> set (ls @ [n])"
    and h: "state a = LOCKED \<and> state b = LOCKED \<and> tid a \<noteq> tid b"
  show "\<not> forWriting a \<and> \<not> forWriting b"
  proof (cases "a = n")
    case True note an = this
    show ?thesis
    proof (cases "b = n")
      case True with an h show ?thesis by simp
    next
      case False
      with b have "b \<in> set ls" by simp
      with n an h have "\<not> conflicts (tid a) (forWriting a) b" by simp
      with h show ?thesis by (auto simp: conflicts_def)
    qed
  next
    case False
    with a have ain: "a \<in> set ls" by simp
    show ?thesis
    proof (cases "b = n")
      case True
      with n ain h have "\<not> conflicts (tid b) (forWriting b) a" by simp
      with h show ?thesis by (auto simp: conflicts_def)
    next
      case False
      with b have "b \<in> set ls" by simp
      with ain h ex show ?thesis unfolding exclusive_def by blast
    qed
  qed
qed

lemma conflicts_pending: "state l = PENDING \<Longrightarrow> \<not> conflicts t w l"
  by (simp add: conflicts_def)

lemma lock_inv:
  assumes "locker_inv L" shows "locker_inv (snd (lock L p t w prio nt now))"
proof (cases "\<exists>l \<in> set (locks L). tid l = t \<and> state l = EXPIRED")
  case True
  with assms show ?thesis by (simp add: lock_def)
next
  case False
  define i where "i = lastid L + 1"
  define l where "l = mk_lock i p t w prio now"
  define check where "check = allowLock (locks L @ [l]) p t w"
  define l1 where "l1 = l\<lparr>waitingFor := map_option lock_id (snd check)\<rparr>"
  define l2 where "l2 = (if fst check then grant_lock nt now l1 else l1)"
  have res: "snd (lock L p t w prio nt now) = L\<lparr>locks := locks L @ [l2], lastid := i\<rparr>"
    using False by (simp add: lock_def Let_def i_def l_def check_def l1_def l2_def)
  have f2: "lock_id l2 = i" "tid l2 = t" "forWriting l2 = w"
    by (simp_all add: l2_def l1_def l_def mk_lock_def grant_lock_fields)
  have st: "state l2 = LOCKED \<Longrightarrow> fst check"
    by (cases "fst check") (simp_all add: l2_def l1_def l_def mk_lock_def)
  from assms have ex: "exclusive (locks L)" and d: "distinct (map lock_id (locks L))"
    and b: "\<forall>x \<in> set (locks L). lock_id x \<le> lastid L"
    by (simp_all add: locker_inv_def ids_ok_def)
  have "exclusive (locks L @ [l2])"
  proof (rule exclusive_append1[OF ex])
    assume "state l2 = LOCKED"
    then have "\<forall>x \<in> set (locks L @ [l]). \<not> conflicts t w x"
      using st by (simp add: check_def allowLock_fst)
    then show "\<forall>x \<in> set (locks L). \<not> conflicts (tid l2) (forWriting l2) x"
      by (simp add: f2)
  qed
  moreover have "distinct (map lock_id (locks L @ [l2]))"
    using d b by (auto simp: f2 i_def)
  moreover have "\<forall>x \<in> set (locks L @ [l2]). lock_id x \<le> i"
    using b by (auto simp: f2 i_def)
  ultimately show ?thesis by (simp add: res locker_inv_def ids_ok_def)
qed

lemma locker_invI:
  "exclusive ls \<Longrightarrow> distinct (map lock_id ls) \<Longrightarrow> \<forall>l \<in> set ls. lock_id l \<le> lastid L
   \<Longrightarrow> locker_inv (L\<lparr>locks := ls\<rparr>)"
  by (simp add: locker_inv_def ids_ok_def)

lemma filter_inv:
  assumes "locker_inv L" shows "locker_inv (L\<lparr>locks := filter P (locks L)\<rparr>)"
  using assms by (simp add: locker_inv_def ids_ok_def exclusive_filter distinct_map_filter)

lemma unlock_inv:
  assumes "locker_inv L" shows "locker_inv (snd (unlock srt L i pq now))"
  using assms filter_inv[OF assms] processLockQueue_inv
  by (simp add: unlock_def Let_def)

lemma expire_inv:
  assumes "locker_inv L" shows "locker_inv (expire srt L i now)"
proof (cases "\<exists>l \<in> set (locks L). lock_id l = i \<and> state l = LOCKED")
  case False
  then have "expire srt L i now = L" unfolding expire_def by (rule if_not_P)
  with assms show ?thesis by simp
next
  case True
  let ?f = "\<lambda>l. if lock_id l = i then l\<lparr>state := EXPIRED\<rparr> else l"
  from assms have ex: "exclusive (locks L)" and ok: "ids_ok L" by (simp_all add: locker_inv_def)
  have "exclusive (map ?f (locks L))"
    by (rule exclusive_map_weaken[OF ex]) simp
  moreover have m: "map lock_id (map ?f (locks L)) = map lock_id (locks L)"
    by (induction "locks L") (simp_all add: comp_def)
  moreover have "distinct (map lock_id (map ?f (locks L)))"
    using ok unfolding m by (simp add: ids_ok_def)
  moreover have "\<forall>l \<in> set (map ?f (locks L)). lock_id l \<le> lastid L"
    using ok ids_bound_cong[OF m, of "lastid L"] unfolding ids_ok_def by blast
  ultimately have "locker_inv (L\<lparr>locks := map ?f (locks L)\<rparr>)"
    by (intro locker_invI)
  then show ?thesis using True by (simp add: expire_def processLockQueue_inv)
qed


lemma moveTo_inv:
  assumes "locker_inv L" "lk \<in> set (locks L)"
  shows "locker_inv (snd (moveTo srt L lk p w now))"
proof (cases "isAllowed (locks L) p (tid lk) w")
  case False
  then have "snd (moveTo srt L lk p w now)
      = snd (lock (snd (unlock srt L (lock_id lk) False now)) p (tid lk) w True False now)"
    by (simp add: moveTo_def)
  with lock_inv[OF unlock_inv[OF assms(1)]] show ?thesis by simp
next
  case True
  let ?f = "\<lambda>l. l\<lparr>waitingFor := None, path := p, forWriting := w\<rparr>"
  let ?g = "\<lambda>l. if lock_id l = lock_id lk then ?f l else l"
  from assms have ex: "exclusive (locks L)" and ok: "ids_ok L" by (simp_all add: locker_inv_def)
  from True have nc: "\<forall>l \<in> set (locks L). \<not> conflicts (tid lk) w l"
    by (simp add: isAllowed_def allowLock_fst)
  have same: "\<And>l. l \<in> set (locks L) \<Longrightarrow> lock_id l = lock_id lk \<Longrightarrow> l = lk"
    using ok assms(2) unfolding ids_ok_def by (metis distinct_map inj_onD)
  have e: "exclusive (map ?g (locks L))"
  proof (rule exclusive_update[where t="tid lk" and w=w, OF ex _ nc])
    fix l assume "l \<in> set (locks L)" "lock_id l = lock_id lk"
    from same[OF this] show "tid (?f l) = tid lk \<and> forWriting (?f l) = w" by simp
  qed
  have m: "map lock_id (map ?g (locks L)) = map lock_id (locks L)"
    by (induction "locks L") (simp_all add: comp_def)
  have d: "distinct (map lock_id (map ?g (locks L)))"
    using ok unfolding m by (simp add: ids_ok_def)
  have b: "\<forall>l \<in> set (map ?g (locks L)). lock_id l \<le> lastid L"
    using ok ids_bound_cong[OF m, of "lastid L"] unfolding ids_ok_def by blast
  have "locker_inv (L\<lparr>locks := map ?g (locks L)\<rparr>)"
    using e d b by (intro locker_invI)
  then show ?thesis using True by (simp add: moveTo_def)
qed

lemma new_locker_inv: "locker_inv new_locker"
  by (simp add: locker_inv_def ids_ok_def new_locker_def exclusive_def)

lemma createTid_inv: "locker_inv L \<Longrightarrow> locker_inv (snd (createTid L))"
  by (simp add: locker_inv_def ids_ok_def createTid_def)

lemma reachable_inv: "reachable srt L \<Longrightarrow> locker_inv L"
  by (induction rule: reachable.induct)
     (simp_all add: new_locker_inv createTid_inv lock_inv unlock_inv expire_inv moveTo_inv)

lemma lock_result:
  assumes "\<not> has_expired L t"
  shows "\<exists>l2. lock L p t w prio nt now = (Inr (lastid L + 1), L\<lparr>locks := locks L @ [l2], lastid := lastid L + 1\<rparr>)
     \<and> lock_id l2 = lastid L + 1 \<and> tid l2 = t \<and> forWriting l2 = w
     \<and> (state l2 = LOCKED \<longleftrightarrow> (\<forall>x \<in> set (locks L). \<not> conflicts t w x))"
proof -
  define i where "i = lastid L + 1"
  define l where "l = mk_lock i p t w prio now"
  define check where "check = allowLock (locks L @ [l]) p t w"
  define l1 where "l1 = l\<lparr>waitingFor := map_option lock_id (snd check)\<rparr>"
  define l2 where "l2 = (if fst check then grant_lock nt now l1 else l1)"
  have res: "lock L p t w prio nt now = (Inr i, L\<lparr>locks := locks L @ [l2], lastid := i\<rparr>)"
    using assms by (simp add: lock_def has_expired_def Let_def i_def l_def check_def l1_def l2_def)
  have f2: "lock_id l2 = i" "tid l2 = t" "forWriting l2 = w"
    by (simp_all add: l2_def l1_def l_def mk_lock_def grant_lock_fields)
  have "\<not> conflicts t w l" by (simp add: conflicts_def l_def mk_lock_def)
  then have c: "fst check \<longleftrightarrow> (\<forall>x \<in> set (locks L). \<not> conflicts t w x)"
    by (simp add: check_def allowLock_fst)
  have st: "state l2 = LOCKED \<longleftrightarrow> fst check"
    by (cases "fst check") (simp_all add: l2_def l1_def l_def mk_lock_def grant_lock_fields)
  show ?thesis using res f2 st c unfolding i_def by blast
qed

lemma lock_granted_iff:
  assumes "locker_inv L" "\<not> has_expired L t" "lock L p t w prio nt now = (r, L')"
  shows "r = Inr (lastid L + 1) \<and> (is_granted L' (lastid L + 1) \<longleftrightarrow> (\<forall>x \<in> set (locks L). \<not> conflicts t w x))"
proof -
  from lock_result[OF assms(2), of p w prio nt now] obtain l2 where
    r: "lock L p t w prio nt now = (Inr (lastid L + 1), L\<lparr>locks := locks L @ [l2], lastid := lastid L + 1\<rparr>)"
    and i: "lock_id l2 = lastid L + 1"
    and st: "state l2 = LOCKED \<longleftrightarrow> (\<forall>x \<in> set (locks L). \<not> conflicts t w x)" by blast
  from assms(1) have "\<forall>x \<in> set (locks L). lock_id x \<noteq> lastid L + 1"
    by (auto simp: locker_inv_def ids_ok_def)
  then have "is_granted (L\<lparr>locks := locks L @ [l2], lastid := lastid L + 1\<rparr>) (lastid L + 1) \<longleftrightarrow> state l2 = LOCKED"
    using i by (auto simp: is_granted_def)
  with r assms(3) st show ?thesis by simp
qed

text \<open>
  C1. In every reachable state of the lock queue, a granted write lock excludes every granted
  lock of another transaction, so at most one transaction holds granted write locks and no
  read lock is granted next to another transaction's write lock. A read request of a
  transaction without expired locks is granted at once iff no other transaction holds a granted
  write lock, whatever the number of read locks already granted.
\<close>

theorem single_writer_exclusion:
  assumes "reachable srt L"
  shows "(\<forall>a \<in> set (granted_locks L). \<forall>b \<in> set (granted_locks L).
            forWriting a \<and> tid a \<noteq> tid b \<longrightarrow> False)
       \<and> (\<forall>t p prio nt now. \<not> has_expired L t \<longrightarrow>
            (\<exists>L'. lock L p t False prio nt now = (Inr (lastid L + 1), L')
               \<and> (is_granted L' (lastid L + 1) \<longleftrightarrow> \<not> other_writer L t)))"
proof (intro conjI allI impI ballI)
  from reachable_inv[OF assms] have inv: "locker_inv L" .
  { fix a b assume "a \<in> set (granted_locks L)" "b \<in> set (granted_locks L)" "forWriting a \<and> tid a \<noteq> tid b"
    with inv show False by (auto simp: locker_inv_def exclusive_def granted_locks_def) }
  { fix t p prio nt now assume ne: "\<not> has_expired L t"
    obtain r L' where rl: "lock L p t False prio nt now = (r, L')" by (cases "lock L p t False prio nt now")
    from lock_granted_iff[OF inv ne rl] rl
    show "\<exists>L'. lock L p t False prio nt now = (Inr (lastid L + 1), L')
               \<and> (is_granted L' (lastid L + 1) \<longleftrightarrow> \<not> other_writer L t)"
      by (auto simp: other_writer_def conflicts_def) }
qed

lemmas locker_eval = lock_def new_locker_def mk_lock_def allowLock_def conflicts_def
  grant_lock_def Let_def LOCK_TIMEOUT_def has_expired_def other_writer_def is_granted_def
  granted_locks_def holds_write_def expire_def unlock_def processLockQueue_def
  pending_sorted_def insertion_sort_def process_one_def set_waitingFor_def grant_def
  lock_compare_def

lemma reachable_two_readers: "reachable srt run_two_readers"
  unfolding run_two_readers_def by (intro r_lock r_new)

text \<open>Witness for C1: two read locks of different transactions are granted, and a third
  transaction is granted one more.\<close>

theorem single_writer_exclusion_witness:
  "reachable insertion_sort run_two_readers
   \<and> map tid (granted_locks run_two_readers) = [1, 2]
   \<and> map forWriting (granted_locks run_two_readers) = [False, False]
   \<and> \<not> has_expired run_two_readers 3
   \<and> is_granted (snd (lock run_two_readers ''x'' 3 False False False 2)) 3"
proof -
  have r: "reachable insertion_sort run_two_readers" by (rule reachable_two_readers)
  have e: "\<not> has_expired run_two_readers 3" by (simp add: run_two_readers_def locker_eval)
  have o: "\<not> other_writer run_two_readers 3" by (simp add: run_two_readers_def locker_eval)
  have l: "lastid run_two_readers + 1 = 3" by (simp add: run_two_readers_def locker_eval)
  from single_writer_exclusion[OF r] e
  obtain L' where "lock run_two_readers ''x'' 3 False False False 2 = (Inr (lastid run_two_readers + 1), L')"
     "is_granted L' (lastid run_two_readers + 1) \<longleftrightarrow> \<not> other_writer run_two_readers 3"
    by blast
  with o l have "is_granted (snd (lock run_two_readers ''x'' 3 False False False 2)) 3"
    by simp
  moreover have "map tid (granted_locks run_two_readers) = [1, 2]"
    by (simp add: run_two_readers_def locker_eval)
  moreover have "map forWriting (granted_locks run_two_readers) = [False, False]"
    by (simp add: run_two_readers_def locker_eval)
  ultimately show ?thesis using r e by blast
qed

text \<open>
  C10 (amended). In a reachable state, a transaction that holds a granted write lock and has
  no expired lock in the queue is granted at once any further lock it requests, for reading or
  for writing, on any path.
\<close>

theorem reentrant_lock:
  assumes "reachable srt L" "holds_write L t" "\<not> has_expired L t"
  shows "\<exists>L'. lock L p t w prio nt now = (Inr (lastid L + 1), L') \<and> is_granted L' (lastid L + 1)"
proof -
  from reachable_inv[OF assms(1)] have inv: "locker_inv L" .
  from assms(2) obtain h where h: "h \<in> set (locks L)" "tid h = t" "state h = LOCKED" "forWriting h"
    by (auto simp: holds_write_def)
  have nc: "\<forall>x \<in> set (locks L). \<not> conflicts t w x"
  proof
    fix x assume x: "x \<in> set (locks L)"
    show "\<not> conflicts t w x"
    proof
      assume "conflicts t w x"
      then have "tid x \<noteq> t" "state x = LOCKED" by (simp_all add: conflicts_def)
      with inv h x have "\<not> forWriting h" unfolding locker_inv_def exclusive_def by blast
      with h(4) show False by simp
    qed
  qed
  obtain r L' where rl: "lock L p t w prio nt now = (r, L')" by (cases "lock L p t w prio nt now")
  from lock_granted_iff[OF inv assms(3) rl] nc rl show ?thesis by simp
qed

lemma reachable_expired: "reachable insertion_sort run_expired"
  unfolding run_expired_def by (intro r_expire r_lock r_new)

text \<open>C10 as stated fails: transaction 1 holds a granted write lock, one of its other locks
  has expired, and its next request is rejected by the guard at the head of \<open>lock\<close>.\<close>

theorem reentrant_lock_counterexample:
  "reachable insertion_sort run_expired \<and> holds_write run_expired 1
   \<and> lock run_expired ''c'' 1 False False False 120001 = (Inl LockExpired, run_expired)"
proof -
  have "holds_write run_expired 1" by (simp add: run_expired_def locker_eval)
  moreover have "has_expired run_expired 1" by (simp add: run_expired_def locker_eval)
  then have "lock run_expired ''c'' 1 False False False 120001 = (Inl LockExpired, run_expired)"
    by (simp add: lock_def has_expired_def)
  ultimately show ?thesis using reachable_expired by blast
qed

lemma reachable_queue: "reachable srt run_queue"
  unfolding run_queue_def by (intro r_lock r_new)

text \<open>Witness for C10: transaction 1 holds the write lock of \<open>run_queue\<close> and is granted a
  read lock while two other transactions wait.\<close>

theorem reentrant_lock_witness:
  "reachable insertion_sort run_queue \<and> holds_write run_queue 1 \<and> \<not> has_expired run_queue 1
   \<and> is_granted (snd (lock run_queue ''a/b'' 1 False False False 3)) 4"
proof -
  have h: "holds_write run_queue 1" by (simp add: run_queue_def locker_eval)
  have e: "\<not> has_expired run_queue 1" by (simp add: run_queue_def locker_eval)
  have l: "lastid run_queue + 1 = 4" by (simp add: run_queue_def locker_eval)
  from reentrant_lock[OF reachable_queue h e, of "''a/b''" False False False 3] l
  have "is_granted (snd (lock run_queue ''a/b'' 1 False False False 3)) 4" by auto
  with h e reachable_queue show ?thesis by blast
qed


section \<open>Properties of the inline placement\<close>

lemma utf8_length_ascii: "utf8_length (replicate n CHR ''x'') = n"
  by (induction n) (simp_all add: utf8_length_def)

lemma utf8_length_ge: "length s \<le> utf8_length s"
  by (induction s) (simp_all add: utf8_length_def)

text \<open>What the code computes: strings and path references fit when their UTF-8 size is
  strictly below the limit, scalars and empty composites always, binary values never.\<close>

lemma valueFitsInline_string:
  "valueFitsInline m (JString s) = Inr (int (utf8_length s) < m)"
  using utf8_length_ge[of s] by auto

lemma valueFitsInline_reference:
  "valueFitsInline m (JPathReference p) = Inr (int (utf8_length p) < m)"
  using utf8_length_ge[of p] by auto

lemma valueFitsInline_binary: "valueFitsInline m (JArrayBuffer bytes) = Inr False"
  by (simp add: js_less_def arraybuffer_length_def)

text \<open>
  C3. With the default limit of 50, a string of exactly 50 UTF-8 bytes and a binary value of
  exactly 50 bytes have a serialized size within the limit and are not non-empty composites,
  and \<open>valueFitsInline\<close> answers false for both; a string of 49 bytes fits.
\<close>

theorem valueFitsInline_at_limit:
  "serialized_size (JString (replicate 50 CHR ''x'')) = 50
   \<and> valueFitsInline default_maxInlineValueSize (JString (replicate 50 CHR ''x'')) = Inr False
   \<and> serialized_size (JArrayBuffer (replicate 50 0)) = 50
   \<and> valueFitsInline default_maxInlineValueSize (JArrayBuffer (replicate 50 0)) = Inr False
   \<and> valueFitsInline default_maxInlineValueSize (JString (replicate 49 CHR ''x'')) = Inr True"
  by (simp add: utf8_length_ascii js_less_def arraybuffer_length_def
        default_maxInlineValueSize_def)

section \<open>Properties of transactions\<close>









section \<open>Properties of query planning and merging\<close>

lemmas query_eval = query_plan_def assign_filter_def check_tableScanFilters_def
  assign_order_indexes_def mk_filter_def likes_index_def isWildcardPath_def ref_isWildcardPath_def
  specialOps_def is_letter_def allowedTableScanOperators_def Let_def score_index_def
  assign_others_def assign_sorts_def points_compare_def insertion_sort_def

text \<open>
  C7. The base path \<open>users/$uid/posts\<close> contains a named wildcard key (the public
  reference counts it as a wildcard path). With no index, the filter on \<open>likes\<close> is left for
  the table scan, and the query is not rejected: the check reads \<open>path.includes('*')\<close>
  only. The same query on \<open>users/*/posts\<close> is rejected with the index-required error, and
  goes through once the index on \<open>likes\<close> exists.
\<close>

theorem query_named_wildcard_not_rejected:
  "ref_isWildcardPath ''users/$uid/posts''
   \<and> query_plan insertion_sort [] [] ''users/$uid/posts'' [mk_filter ''likes'' ''>'' (JNumber 10)] [] 0
       = Inr ([mk_filter ''likes'' ''>'' (JNumber 10)], [])
   \<and> query_plan insertion_sort [] [] ''users/*/posts'' [mk_filter ''likes'' ''>'' (JNumber 10)] [] 0
       = Inl (WildcardIndexRequired [''likes''])
   \<and> query_plan insertion_sort [] [likes_index ''users/*/posts''] ''users/*/posts''
         [mk_filter ''likes'' ''>'' (JNumber 10)] [] 0
       = Inr ([(mk_filter ''likes'' ''>'' (JNumber 10))\<lparr>f_index := Some (likes_index ''users/*/posts'')\<rparr>], [])"
  by (simp add: query_eval)



section \<open>Properties of value comparison and event triggers\<close>

lemma concat_map_nil: "(\<And>k. k \<in> set ks \<Longrightarrow> f k = []) \<Longrightarrow> concat (map f ks) = []"
  by (induction ks) simp_all

lemma concat_map_const_nil: "concat (map (\<lambda>k. []) ks) = []"
  by (induction ks) simp_all

lemma compareValues_strict_eq: "strict_eq a b \<Longrightarrow> compareValues a b = Identical"
  by (subst compareValues.simps) simp

lemma compareValues_composite:
  assumes "\<not> strict_eq a b" "\<not> is_void a" "\<not> is_void b" "typeof a = ''object''" "typeof b = ''object''"
    "\<not> isTypedArray a" "\<not> isTypedArray b" "\<not> is_Date a" "\<not> is_Date b"
  shows "compareValues a b =
        (let isArray = is_Array a;
             oldKeys = object_keys isArray a;
             newKeys = object_keys isArray b;
             removedKeys = filter (\<lambda>k. \<not> js_includes newKeys k) oldKeys;
             addedKeys = filter (\<lambda>k. \<not> js_includes oldKeys k) newKeys;
             changedKeys = concat (map (\<lambda>k.
                 if indexOf_found oldKeys k
                 then (let c = compareValues (js_get a (property_name k))
                                             (js_get b (property_name k))
                       in if c \<noteq> Identical then [(k, c)] else [])
                 else []) newKeys)
         in if addedKeys = [] \<and> removedKeys = [] \<and> changedKeys = [] then Identical
            else Diff addedKeys removedKeys changedKeys)"
  by (subst compareValues.simps) (use assms in simp)


lemma compareValues_same: "compareValues v v = Identical"
proof (induction "weight v" arbitrary: v rule: less_induct)
  case less
  show ?case
  proof (cases "strict_eq v v")
    case True
    then show ?thesis by (rule compareValues_strict_eq)
  next
    case False
    then have nv: "\<not> is_void v" by (cases v) simp_all
    from False have ob: "typeof v = ''object''" by (cases v) simp_all
    show ?thesis
    proof (cases "isTypedArray v \<or> is_Date v")
      case True
      then have "v = JArrayBuffer (bytes_of v) \<or> v = JDate (getTime v)" by (cases v) simp_all
      then show ?thesis
      proof
        assume "v = JArrayBuffer (bytes_of v)"
        then obtain bs where "v = JArrayBuffer bs" ..
        then show ?thesis by (subst compareValues.simps) simp
      next
        assume "v = JDate (getTime v)"
        then obtain d where "v = JDate d" ..
        then show ?thesis by (subst compareValues.simps) simp
      qed
    next
      case nt: False
      let ?ks = "object_keys (is_Array v) v"
      have w: "\<And>k. weight (js_get v (property_name k)) < weight v"
        using nv nt ob by (intro weight_js_get) simp_all
      have ch: "\<And>k. compareValues (js_get v (property_name k)) (js_get v (property_name k)) = Identical"
        by (rule less.hyps[OF w])
      have f: "filter (\<lambda>k. \<not> js_includes ?ks k) ?ks = []"
        by (simp add: js_includes_def)
      have nt1: "\<not> isTypedArray v" "\<not> is_Date v" using nt by simp_all
      show ?thesis
        using False nv nt1 ob
        by (subst compareValues_composite) (auto simp add: Let_def f ch)
    qed
  qed
qed

text \<open>On numbers, strings and booleans \<open>compareValues\<close> is equality; dates are compared
  by their time and buffers byte by byte.\<close>

lemma compareValues_scalars:
  "(compareValues (JNumber a) (JNumber b) = Identical) = (a = b)"
  "(compareValues (JString s) (JString t) = Identical) = (s = t)"
  "(compareValues (JBoolean p) (JBoolean q) = Identical) = (p = q)"
  "(compareValues (JDate d) (JDate e) = Identical) = (d = e)"
  "(compareValues (JArrayBuffer bs) (JArrayBuffer cs) = Identical) = (bs = cs)"
  by (subst compareValues.simps, simp)+


lemma compareValues_array_object:
  "compareValues (JArray [JString ''a'']) (JObject [(''0'', JString ''a'')]) = Identical"
  by code_simp



section \<open>Properties of writing a node\<close>

lemma plan_changes_currentRow:
  assumes "plan_changes st p v merge row s = Inr pl"
  shows "currentRow pl = row"
  using assms
  by (auto simp: plan_changes_def Let_def split: option.splits if_splits)

lemma write_plan_currentRow:
  assumes "write_plan env st p v merge = Inr pl"
  shows "currentRow pl = st_get st p"
proof -
  from assms obtain s where "plan_changes st p v merge (st_get st p) s = Inr pl"
    by (auto simp: write_plan_def split: option.splits sum.splits)
  then show ?thesis by (rule plan_changes_currentRow)
qed

lemma st_get_set: "st_get (st_set st p r) p = Some r"
  by (simp add: st_get_def st_set_def)

lemma storeNode_stored:
  assumes "storeNode st p r = (None, st')"
  shows "st_get st' p = Some r"
proof -
  from assms have "st' = st_set st p r"
    by (auto simp: storeNode_def split: if_splits list.splits)
  then show ?thesis by (simp add: st_get_set)
qed

lemma writeNode_stores:
  assumes "writeNode env revision st p v merge = (None, st')"
  shows "\<exists>pl. write_plan env st p v merge = Inr pl \<and> st_get st' p = Some (new_record env revision pl)"
proof (cases "write_plan env st p v merge")
  case (Inl e)
  with assms show ?thesis by (subst (asm) writeNode.simps) simp
next
  case (Inr pl)
  obtain e1 st1 where w: "writeChildren env revision st p (mainNode_type pl = ARRAY) (child_values pl) = (e1, st1)"
    by (cases "writeChildren env revision st p (mainNode_type pl = ARRAY) (child_values pl)")
  obtain e2 st2 where d: "delete_children st1 p (mainNode_type pl = ARRAY) (delete_keys pl) = (e2, st2)"
    by (cases "delete_children st1 p (mainNode_type pl = ARRAY) (delete_keys pl)")
  from assms Inr w have e1: "e1 = None"
    by (subst (asm) writeNode.simps) (cases e1; simp)
  from assms Inr w d e1 have e2: "e2 = None"
    by (subst (asm) writeNode.simps) (cases e2; simp)
  from assms Inr w d e1 e2 have "storeNode st2 p (new_record env revision pl) = (None, st')"
    by (subst (asm) writeNode.simps) simp
  from storeNode_stored[OF this] Inr show ?thesis by simp
qed

text \<open>
  C2. When \<open>_writeNode\<close> completes at path \<open>p\<close>: if a record existed at \<open>p\<close>, the
  record stored now has the old revision number plus one, the old creation time and the
  current time as modification time; if none existed, the new record has revision number 1.
\<close>

theorem write_metadata:
  assumes "writeNode env revision st p v merge = (None, st')"
  shows "case st_get st p of
           Some row \<Rightarrow> (\<exists>r. st_get st' p = Some r \<and> revision_nr r = revision_nr row + 1
                            \<and> created r = created row \<and> modified r = date_now env)
         | None \<Rightarrow> (\<exists>r. st_get st' p = Some r \<and> revision_nr r = 1)"
proof -
  from writeNode_stores[OF assms] obtain pl where
    pl: "write_plan env st p v merge = Inr pl" "st_get st' p = Some (new_record env revision pl)"
    by blast
  from write_plan_currentRow[OF pl(1)] have c: "currentRow pl = st_get st p" .
  show ?thesis
  proof (cases "st_get st p")
    case None
    with c pl(2) show ?thesis by (simp add: new_record_def)
  next
    case (Some row)
    with c pl(2) show ?thesis by (simp add: new_record_def)
  qed
qed

text \<open>Witness for C2: the merge update \<open>{2: null}\<close> of the array at \<open>arr\<close> (revision
  number 1, created at 1000) at time 2000.\<close>

theorem write_metadata_witness:
  "fst (writeNode env0 ''r1'' arr_store [KStr ''arr''] (JObject [(''2'', JNull)]) True) = None
   \<and> (\<exists>r. st_get (snd (writeNode env0 ''r1'' arr_store [KStr ''arr''] (JObject [(''2'', JNull)]) True))
               [KStr ''arr''] = Some r
            \<and> revision_nr r = 2 \<and> created r = 1000 \<and> modified r = 2000)"
proof -
  let ?w = "writeNode env0 ''r1'' arr_store [KStr ''arr''] (JObject [(''2'', JNull)]) True"
  have f: "fst ?w = None" by code_simp
  then have h: "?w = (None, snd ?w)" by (simp add: prod_eq_iff)
  have g: "st_get arr_store [KStr ''arr''] = Some arr_record"
    by (simp add: st_get_def arr_store_def)
  have e: "date_now env0 = 2000" by (simp add: env0_def)
  from write_metadata[OF h] g e
  have "\<exists>r. st_get (snd ?w) [KStr ''arr''] = Some r \<and> revision_nr r = revision_nr arr_record + 1
            \<and> created r = created arr_record \<and> modified r = 2000"
    by simp
  moreover have "revision_nr arr_record + 1 = 2" "created arr_record = 1000"
    by (simp_all add: arr_record_def)
  ultimately have "\<exists>r. st_get (snd ?w) [KStr ''arr''] = Some r \<and> revision_nr r = 2
            \<and> created r = 1000 \<and> modified r = 2000"
    by (simp only:)
  with f show ?thesis by blast
qed

text \<open>The array scenarios of the specification: removing the last index of
  \<open>["u","v","w"]\<close> succeeds; removing index 0, inserting at index 5 and removing the absent
  index 5 fail and leave the store as it was; appending at index 3 succeeds; creating an
  array with a missing entry fails.\<close>

lemma array_trailing_remove:
  "fst (writeNode env0 ''r1'' arr_store [KStr ''arr''] (JObject [(''2'', JNull)]) True) = None
   \<and> stored_keys (snd (writeNode env0 ''r1'' arr_store [KStr ''arr''] (JObject [(''2'', JNull)]) True))
        [KStr ''arr''] = Some [''0'', ''1'']"
  by code_simp

lemma array_leading_remove:
  "writeNode env0 ''r1'' arr_store [KStr ''arr''] (JObject [(''0'', JNull)]) True
     = (Some array_merge_error, arr_store)"
  by code_simp

lemma array_insert_beyond:
  "writeNode env0 ''r1'' arr_store [KStr ''arr''] (JObject [(''5'', JString ''x'')]) True
     = (Some array_merge_error, arr_store)"
  by code_simp

lemma array_remove_absent:
  "writeNode env0 ''r1'' arr_store [KStr ''arr''] (JObject [(''5'', JNull)]) True
     = (Some array_merge_error, arr_store)"
  by code_simp

lemma array_append:
  "stored_keys (snd (writeNode env0 ''r1'' arr_store [KStr ''arr''] (JObject [(''3'', JString ''x'')]) True))
        [KStr ''arr''] = Some [''0'', ''1'', ''2'', ''3'']"
  by code_simp

text \<open>
  C4. Writing the array \<open>["a", null, "c"]\<close> to a path without a record fails with the
  array error and leaves the store unchanged. Writing the same value over the existing array
  at \<open>arr\<close> is not checked: the write succeeds, and the array record then holds the keys
  0 and 2 only, which is not an exhaustive sequence.
\<close>

theorem array_overwrite_with_gap:
  "writeNode env0 ''r1'' arr_store [KStr ''b''] (JArray [JString ''a'', JNull, JString ''c'']) False
     = (Some array_create_error, arr_store)
   \<and> fst (writeNode env0 ''r1'' arr_store [KStr ''arr''] (JArray [JString ''a'', JNull, JString ''c'']) False)
     = None
   \<and> stored_keys (snd (writeNode env0 ''r1'' arr_store [KStr ''arr'']
                          (JArray [JString ''a'', JNull, JString ''c'']) False)) [KStr ''arr'']
     = Some [''0'', ''2'']
   \<and> \<not> isExhaustive [''0'', ''2'']"
  by code_simp

end
